theory Spec2Isabelle
  imports Complex_Main "HOL-Library.Sublist"
begin

section \<open>Errors\<close>

text \<open>
  Every failure of \<^verbatim>\<open>app.js\<close> is a JavaScript \<^verbatim>\<open>Error\<close> carrying a message.
  A rejected promise or a \<^verbatim>\<open>throw\<close> is the left injection of a sum.
\<close>

datatype error = Error string

definition QueueFull :: error where
  "QueueFull = Error ''Task queue limit reached''"

definition CircuitOpen :: error where
  "CircuitOpen = Error ''Circuit breaker is OPEN''"

definition ExternalServiceError :: error where
  "ExternalServiceError = Error ''External service error''"

fun message :: "error \<Rightarrow> string" where
  "message (Error m) = m"


section \<open>CircuitBreaker\<close>

datatype cb_state = CLOSED | OPEN | HALF_OPEN

record breaker =
  failureThreshold :: int
  recoveryTime :: int
  failures :: int
  state :: cb_state
  nextAttempt :: int

text \<open>
  \<^verbatim>\<open>constructor(failureThreshold = 5, recoveryTime = 5000)\<close>: an argument that is
  not passed is \<open>None\<close> and takes the default. \<open>now\<close> is the value of
  \<^verbatim>\<open>Date.now()\<close>, in milliseconds.
\<close>

definition CircuitBreaker :: "int option \<Rightarrow> int option \<Rightarrow> int \<Rightarrow> breaker" where
  "CircuitBreaker threshold recovery now =
     \<lparr> failureThreshold = (case threshold of None \<Rightarrow> 5 | Some t \<Rightarrow> t),
       recoveryTime = (case recovery of None \<Rightarrow> 5000 | Some r \<Rightarrow> r),
       failures = 0,
       state = CLOSED,
       nextAttempt = now \<rparr>"

definition cb_reset :: "breaker \<Rightarrow> breaker" where
  "cb_reset b = b\<lparr> failures := 0, state := CLOSED \<rparr>"

definition cb_fail :: "int \<Rightarrow> breaker \<Rightarrow> breaker" where
  "cb_fail now b =
     (let b1 = b\<lparr> failures := failures b + 1 \<rparr>
      in if failures b1 \<ge> failureThreshold b1
         then b1\<lparr> state := OPEN, nextAttempt := now + recoveryTime b1 \<rparr>
         else b1)"

text \<open>
  \<^verbatim>\<open>execute\<close> has one suspension point, \<^verbatim>\<open>await fn()\<close>. The code before it
  (the gate on the state) and the code after it (\<^verbatim>\<open>_reset\<close> or \<^verbatim>\<open>_fail\<close>) are the two
  atomic segments of a call.
\<close>

definition cb_gate :: "int \<Rightarrow> breaker \<Rightarrow> error + breaker" where
  "cb_gate now b =
     (if state b = OPEN
      then (if now > nextAttempt b then Inr (b\<lparr> state := HALF_OPEN \<rparr>)
            else Inl CircuitOpen)
      else Inr b)"

definition cb_settle :: "int \<Rightarrow> (error + 'r) \<Rightarrow> breaker \<Rightarrow> breaker" where
  "cb_settle now outcome b =
     (case outcome of Inr r \<Rightarrow> cb_reset b | Inl e \<Rightarrow> cb_fail now b)"

text \<open>
  A whole call that no other call interleaves with. The wrapped operation acts on a
  world \<open>'w\<close> (whatever it touches, a call counter for instance) and returns its
  outcome; \<open>t_call\<close> is the clock when the call is made, \<open>t_done\<close> the clock when the
  operation has settled.
\<close>

definition cb_execute ::
  "int \<Rightarrow> int \<Rightarrow> ('w \<Rightarrow> (error + 'r) \<times> 'w) \<Rightarrow> breaker \<times> 'w \<Rightarrow> (error + 'r) \<times> breaker \<times> 'w" where
  "cb_execute t_call t_done fn bw =
     (case cb_gate t_call (fst bw) of
        Inl e \<Rightarrow> (Inl e, fst bw, snd bw)
      | Inr b1 \<Rightarrow>
          (case fn (snd bw) of
             (Inr r, w') \<Rightarrow> (Inr r, cb_reset b1, w')
           | (Inl e, w') \<Rightarrow> (Inl e, cb_fail t_done b1, w')))"

text \<open>A run of calls made one after the other, each given its two clock readings.\<close>

fun cb_calls ::
  "(int \<times> int \<times> ('w \<Rightarrow> (error + 'r) \<times> 'w)) list \<Rightarrow> breaker \<times> 'w \<Rightarrow> breaker \<times> 'w" where
  "cb_calls [] bw = bw"
| "cb_calls ((t_call, t_done, fn) # cs) bw = cb_calls cs (snd (cb_execute t_call t_done fn bw))"

text \<open>
  The failure count is never negative, and the breaker is away from \<open>CLOSED\<close> only
  with the failure count at or above the threshold. Every breaker built by the
  constructor and driven by \<open>cb_gate\<close> and \<open>cb_settle\<close>, in any interleaving, is in
  such a state (lemmas \<open>cb_inv_new\<close>, \<open>cb_inv_gate\<close>, \<open>cb_inv_settle\<close>).
\<close>

definition cb_inv :: "breaker \<Rightarrow> bool" where
  "cb_inv b = (0 \<le> failures b \<and> (state b = CLOSED \<or> failureThreshold b \<le> failures b))"

text \<open>
  Two wrapped operations for concrete runs. Their world is the number of times they
  have been invoked.
\<close>

definition failing_op :: "nat \<Rightarrow> (error + string) \<times> nat" where
  "failing_op n = (Inl ExternalServiceError, Suc n)"

definition working_op :: "nat \<Rightarrow> (error + string) \<times> nat" where
  "working_op n = (Inr ''done'', Suc n)"

text \<open>
  Calls that overlap: each call contributes its two segments, and the segments of
  different calls interleave. \<open>Enter t\<close> is a call reaching the gate at clock \<open>t\<close> (a
  refused call leaves the breaker as it is); \<open>Leave t outcome\<close> is an admitted call
  whose operation has settled with \<open>outcome\<close> at clock \<open>t\<close>.
\<close>

datatype 'r cb_event = Enter int | Leave int "error + 'r"

fun cb_segment :: "'r cb_event \<Rightarrow> breaker \<Rightarrow> breaker" where
  "cb_segment (Enter t) b = (case cb_gate t b of Inl e \<Rightarrow> b | Inr b' \<Rightarrow> b')"
| "cb_segment (Leave t outcome) b = cb_settle t outcome b"

fun cb_segments :: "'r cb_event list \<Rightarrow> breaker \<Rightarrow> breaker" where
  "cb_segments [] b = b"
| "cb_segments (ev # evs) b = cb_segments evs (cb_segment ev b)"

text \<open>The event is the settlement of a call whose operation succeeded.\<close>

fun succeeded :: "'r cb_event \<Rightarrow> bool" where
  "succeeded (Enter t) = False"
| "succeeded (Leave t outcome) = (\<not> isl outcome)"


section \<open>ConcurrencyManager\<close>

text \<open>
  A queue entry is \<^verbatim>\<open>{ fn, priority, resolve, reject }\<close>. The operation \<^verbatim>\<open>fn\<close> is
  an opaque token of type \<open>'f\<close>; \<^verbatim>\<open>resolve\<close> and \<^verbatim>\<open>reject\<close> only hand the outcome
  back to the caller that is suspended on the entry, so the token stands for that
  caller as well. Priorities are integers.
\<close>

record 'f request =
  req_fn :: 'f
  req_priority :: int

record 'f manager =
  maxConcurrent :: int
  queueLimit :: int
  activeCount :: int
  queue :: "'f request list"

definition ConcurrencyManager :: "int \<Rightarrow> int \<Rightarrow> 'f manager" where
  "ConcurrencyManager maxC limit =
     \<lparr> maxConcurrent = maxC, queueLimit = limit, activeCount = 0, queue = [] \<rparr>"

text \<open>
  \<^verbatim>\<open>this.queue.sort((a, b) => b.priority - a.priority)\<close>: \<^verbatim>\<open>Array.prototype.sort\<close>
  is stable, and the comparator puts the larger priority first. A stable sort has
  one possible result, which is the one insertion sort on the negated priority
  computes.
\<close>

definition js_sort :: "'f request list \<Rightarrow> 'f request list" where
  "js_sort q = sort_key (\<lambda>r. - req_priority r) q"

datatype admission = Rejected error | Enqueued | Started

text \<open>
  \<^verbatim>\<open>_run\<close> up to its suspension point \<^verbatim>\<open>await fn()\<close>: the count goes up and the
  operation is invoked.
\<close>

definition cm_run :: "'f manager \<Rightarrow> 'f manager" where
  "cm_run m = m\<lparr> activeCount := activeCount m + 1 \<rparr>"

text \<open>
  \<^verbatim>\<open>execute(fn, priority)\<close> up to its first suspension point. \<open>Rejected\<close> is the
  \<^verbatim>\<open>throw\<close>, \<open>Enqueued\<close> the pending promise of a waiter, \<open>Started\<close> the call of
  \<^verbatim>\<open>_run(fn)\<close>.
\<close>

definition cm_execute :: "'f \<Rightarrow> int \<Rightarrow> 'f manager \<Rightarrow> admission \<times> 'f manager" where
  "cm_execute f p m =
     (if activeCount m \<ge> maxConcurrent m
      then (if int (length (queue m)) \<ge> queueLimit m
            then (Rejected QueueFull, m)
            else (Enqueued,
                  m\<lparr> queue := js_sort (queue m @ [\<lparr> req_fn = f, req_priority = p \<rparr>]) \<rparr>))
      else (Started, cm_run m))"

text \<open>
  The \<^verbatim>\<open>finally\<close> block of \<^verbatim>\<open>_run\<close>, which runs when a started operation has
  settled: the count goes down and, if a request waits, the head of the queue is
  shifted out and started. The result names the operation started, if any.
\<close>

definition cm_finally :: "'f manager \<Rightarrow> 'f option \<times> 'f manager" where
  "cm_finally m =
     (let m1 = m\<lparr> activeCount := activeCount m - 1 \<rparr>
      in case queue m1 of
           [] \<Rightarrow> (None, m1)
         | next # rest \<Rightarrow> (Some (req_fn next), cm_run (m1\<lparr> queue := rest \<rparr>)))"

record concurrency_metrics =
  snap_activeCount :: int
  snap_queueLength :: nat
  snap_maxConcurrent :: int
  snap_queueLimit :: int

definition getMetrics :: "'f manager \<Rightarrow> concurrency_metrics" where
  "getMetrics m =
     \<lparr> snap_activeCount = activeCount m,
       snap_queueLength = length (queue m),
       snap_maxConcurrent = maxConcurrent m,
       snap_queueLimit = queueLimit m \<rparr>"

subsection \<open>Runs of the admission controller\<close>

text \<open>
  The controller's code runs in two kinds of atomic segment: a submission
  (\<^verbatim>\<open>execute\<close>), and the \<^verbatim>\<open>finally\<close> block of an operation that has settled. A
  \<^verbatim>\<open>finally\<close> block belongs to an operation that was started and has not yet
  released its slot, so \<open>Release\<close> does nothing when no operation is active. The
  second component of the state lists the operations in the order they were granted a
  slot (started).
\<close>

datatype 'f cm_event = Submit 'f int | Release

fun cm_step :: "'f cm_event \<Rightarrow> 'f manager \<times> 'f list \<Rightarrow> 'f manager \<times> 'f list" where
  "cm_step (Submit f p) (m, granted) =
     (case cm_execute f p m of
        (Started, m') \<Rightarrow> (m', granted @ [f])
      | (Enqueued, m') \<Rightarrow> (m', granted)
      | (Rejected e, m') \<Rightarrow> (m', granted))"
| "cm_step Release (m, granted) =
     (if activeCount m \<le> 0 then (m, granted)
      else (case cm_finally m of
              (Some f, m') \<Rightarrow> (m', granted @ [f])
            | (None, m') \<Rightarrow> (m', granted)))"

fun cm_steps :: "'f cm_event list \<Rightarrow> 'f manager \<times> 'f list \<Rightarrow> 'f manager \<times> 'f list" where
  "cm_steps [] s = s"
| "cm_steps (e # es) s = cm_steps es (cm_step e s)"

text \<open>The operations a run submits, in arrival order.\<close>

fun submitted :: "'f cm_event list \<Rightarrow> 'f list" where
  "submitted [] = []"
| "submitted (Submit f p # es) = f # submitted es"
| "submitted (Release # es) = submitted es"

text \<open>
  \<open>x\<close> occurs in \<open>xs\<close> and \<open>y\<close> occurs after it. In a list without repetitions this
  says that \<open>x\<close> comes before \<open>y\<close>.
\<close>

definition before :: "'a \<Rightarrow> 'a \<Rightarrow> 'a list \<Rightarrow> bool" where
  "before x y xs = subseq [x, y] xs"

text \<open>The waiting queue is ordered by descending priority.\<close>

definition descending :: "'f request list \<Rightarrow> bool" where
  "descending q = sorted (map (\<lambda>r. - req_priority r) q)"

text \<open>
  The operations granted so far, followed by the waiting ones in queue order: the
  order in which slots have been and, without further arrivals, will be granted.
\<close>

definition timeline :: "'f manager \<times> 'f list \<Rightarrow> 'f list" where
  "timeline s = snd s @ map req_fn (queue (fst s))"

text \<open>
  Among the waiting requests of any one priority, the queue keeps the order of the
  list \<open>A\<close> (the arrivals).
\<close>

definition arrival_order :: "'f list \<Rightarrow> 'f request list \<Rightarrow> bool" where
  "arrival_order A q = (\<forall>p. subseq (map req_fn (filter (\<lambda>r. req_priority r = p) q)) A)"

text \<open>The bounds of the controller.\<close>

definition cm_inv :: "'f manager \<Rightarrow> bool" where
  "cm_inv m = (activeCount m \<le> maxConcurrent m \<and> int (length (queue m)) \<le> queueLimit m)"


section \<open>taskStorage\<close>

text \<open>
  A pending task is \<^verbatim>\<open>{ taskId, taskData, priority }\<close>; the payload is opaque. The
  file \<^verbatim>\<open>pendingTasks.json\<close> is absent, unreadable as JSON, or holds the array that
  \<^verbatim>\<open>saveTasks\<close> wrote last. Lines written to the console are kept as values.
\<close>

record 'd task =
  taskId :: string
  taskData :: 'd
  priority :: int

datatype 'd task_file = Absent | Malformed | Tasks "'d task list"

datatype log_line =
    ErrorLoadingTasks
  | ErrorSavingTasks
  | Recovering nat
  | RecoveryFailed string string

definition loadTasks :: "'d task_file \<Rightarrow> 'd task list \<times> log_line list" where
  "loadTasks f =
     (case f of
        Absent \<Rightarrow> ([], [])
      | Malformed \<Rightarrow> ([], [ErrorLoadingTasks])
      | Tasks ts \<Rightarrow> (ts, []))"

text \<open>
  \<^verbatim>\<open>writeFileSync\<close> either replaces the file or throws; \<open>can_write\<close> says which. The
  exception is caught and logged.
\<close>

definition saveTasks :: "'d task list \<Rightarrow> bool \<Rightarrow> 'd task_file \<Rightarrow> 'd task_file \<times> log_line list" where
  "saveTasks tasks can_write f =
     (if can_write then (Tasks tasks, []) else (f, [ErrorSavingTasks]))"


section \<open>JavaScript numbers\<close>

text \<open>
  The quotient of two finite numbers, as \<^verbatim>\<open>/\<close> computes it: division by zero does
  not throw, it yields \<^verbatim>\<open>NaN\<close> for \<^verbatim>\<open>0 / 0\<close> and an infinity otherwise. \<open>Finite q\<close>
  stands for the double nearest to the rational \<open>q\<close>. The operands here are counters
  and clock differences, so the zero of a denominator is never negative zero.
\<close>

datatype js_number = NaN | PosInfinity | NegInfinity | Finite rat

definition js_div :: "rat \<Rightarrow> rat \<Rightarrow> js_number" where
  "js_div a b =
     (if b = 0
      then (if a = 0 then NaN else if 0 < a then PosInfinity else NegInfinity)
      else Finite (a / b))"

text \<open>\<^verbatim>\<open>x || d\<close> on an optional number: \<^verbatim>\<open>undefined\<close> and \<^verbatim>\<open>0\<close> are falsy.\<close>

definition js_or :: "int option \<Rightarrow> int \<Rightarrow> int" where
  "js_or x d = (case x of None \<Rightarrow> d | Some v \<Rightarrow> if v = 0 then d else v)"


section \<open>AsyncProcessingSystem\<close>

record options =
  opt_maxConcurrent :: "int option"
  opt_queueLimit :: "int option"
  opt_failureThreshold :: "int option"
  opt_recoveryTime :: "int option"

record metrics =
  totalProcessed :: nat
  totalErrors :: nat
  avgLatency :: rat
  startTime :: int

datatype ('d, 'r) event =
    TaskQueued string 'd int
  | TaskCompleted string 'r
  | TaskFailed string string

text \<open>
  The state of the object, with the file it persists to (\<open>disk\<close>, and whether a write
  succeeds), the events it has emitted and the console. The operation queued in the
  admission controller is the closure \<^verbatim>\<open>() => this.executeTask(taskId, taskData)\<close>,
  kept as the pair it captures. \<open>'r\<close> is the type of a task's result.
\<close>

record ('d, 'r) system =
  concurrencyManager :: "(string \<times> 'd) manager"
  circuitBreaker :: breaker
  isProcessing :: bool
  metrics :: metrics
  pendingTasks :: "'d task list"
  disk :: "'d task_file"
  writable :: bool
  emitted :: "('d, 'r) event list"
  console :: "log_line list"

definition emit :: "('d, 'r) event \<Rightarrow> ('d, 'r) system \<Rightarrow> ('d, 'r) system" where
  "emit ev sys = sys\<lparr> emitted := emitted sys @ [ev] \<rparr>"

text \<open>\<^verbatim>\<open>saveTasks(this.pendingTasks)\<close>.\<close>

definition persist :: "('d, 'r) system \<Rightarrow> ('d, 'r) system" where
  "persist sys =
     (case saveTasks (pendingTasks sys) (writable sys) (disk sys) of
        (f, lines) \<Rightarrow> sys\<lparr> disk := f, console := console sys @ lines \<rparr>)"

text \<open>
  The latency average is kept in exact arithmetic (\<^verbatim>\<open>alpha = 0.1\<close>); the double the
  code holds is a rounding of it.
\<close>

definition updateMetrics :: "rat \<Rightarrow> bool \<Rightarrow> metrics \<Rightarrow> metrics" where
  "updateMetrics latency success m =
     (let m1 = (if success then m\<lparr> totalProcessed := totalProcessed m + 1 \<rparr>
                else m\<lparr> totalErrors := totalErrors m + 1 \<rparr>)
      in m1\<lparr> avgLatency := (1 / 10) * latency + (1 - 1 / 10) * avgLatency m1 \<rparr>)"

text \<open>
  How far a call of \<^verbatim>\<open>processTask\<close> gets before it first suspends: refused by the
  admission controller, waiting in its queue, started with the simulated external
  call in flight, or started and stopped by the circuit breaker.
\<close>

datatype progress = Refused error | Waiting | Launched | Blocked error

text \<open>
  \<^verbatim>\<open>executeTask\<close> up to its suspension: the gate of the circuit breaker, then the
  start of the simulated call.
\<close>

definition executeTask_begin :: "int \<Rightarrow> ('d, 'r) system \<Rightarrow> progress \<times> ('d, 'r) system" where
  "executeTask_begin now sys =
     (case cb_gate now (circuitBreaker sys) of
        Inl e \<Rightarrow> (Blocked e, sys)
      | Inr b \<Rightarrow> (Launched, sys\<lparr> circuitBreaker := b \<rparr>))"

text \<open>
  \<^verbatim>\<open>executeTask\<close> after the circuit breaker's \<^verbatim>\<open>execute\<close> has settled. When the
  simulated call ran, the breaker records its outcome first; when the gate refused the
  call, only the metrics change.
\<close>

definition executeTask_settled ::
  "int \<Rightarrow> rat \<Rightarrow> error + 'r \<Rightarrow> ('d, 'r) system \<Rightarrow> ('d, 'r) system" where
  "executeTask_settled now latency outcome sys =
     sys\<lparr> circuitBreaker := cb_settle now outcome (circuitBreaker sys),
          metrics := updateMetrics latency (\<not> isl outcome) (metrics sys) \<rparr>"

definition executeTask_blocked :: "rat \<Rightarrow> ('d, 'r) system \<Rightarrow> ('d, 'r) system" where
  "executeTask_blocked latency sys =
     sys\<lparr> metrics := updateMetrics latency False (metrics sys) \<rparr>"

text \<open>
  The \<^verbatim>\<open>finally\<close> block of the admission controller inside the system: the queued
  closure that is started next runs \<^verbatim>\<open>executeTask\<close> up to its suspension.
\<close>

definition slot_released ::
  "int \<Rightarrow> ('d, 'r) system \<Rightarrow> ((string \<times> 'd) \<times> progress) option \<times> ('d, 'r) system" where
  "slot_released now sys =
     (case cm_finally (concurrencyManager sys) of
        (None, m) \<Rightarrow> (None, sys\<lparr> concurrencyManager := m \<rparr>)
      | (Some f, m) \<Rightarrow>
          (case executeTask_begin now (sys\<lparr> concurrencyManager := m \<rparr>) of
             (pr, sys') \<Rightarrow> (Some (f, pr), sys')))"

text \<open>
  \<^verbatim>\<open>processTask\<close> up to \<^verbatim>\<open>await this.concurrencyManager.execute(...)\<close>. \<open>tid\<close> is the
  identifier the call generates from the clock and \<^verbatim>\<open>Math.random()\<close>. An argument the
  caller leaves out has taken its default (\<^verbatim>\<open>priority = 0\<close>, \<^verbatim>\<open>isRecovered = false\<close>).
\<close>

definition processTask_begin ::
  "string \<Rightarrow> 'd \<Rightarrow> int \<Rightarrow> bool \<Rightarrow> int \<Rightarrow> ('d, 'r) system \<Rightarrow> progress \<times> ('d, 'r) system" where
  "processTask_begin tid td prio isRecovered now sys =
     (let task = \<lparr> taskId = tid, taskData = td, priority = prio \<rparr>;
          sys1 = (if \<not> isRecovered
                  then persist (sys\<lparr> pendingTasks := pendingTasks sys @ [task] \<rparr>)
                  else sys);
          sys2 = emit (TaskQueued tid td prio) sys1
      in case cm_execute (tid, td) prio (concurrencyManager sys2) of
           (Rejected e, m) \<Rightarrow> (Refused e, sys2\<lparr> concurrencyManager := m \<rparr>)
         | (Enqueued, m) \<Rightarrow> (Waiting, sys2\<lparr> concurrencyManager := m \<rparr>)
         | (Started, m) \<Rightarrow> executeTask_begin now (sys2\<lparr> concurrencyManager := m \<rparr>))"

text \<open>The two continuations of \<^verbatim>\<open>processTask\<close>: the rest of the \<^verbatim>\<open>try\<close> block, and the \<^verbatim>\<open>catch\<close>.\<close>

definition processTask_resolve ::
  "string \<Rightarrow> 'r \<Rightarrow> ('d, 'r) system \<Rightarrow> (error + 'r) \<times> ('d, 'r) system" where
  "processTask_resolve tid result sys =
     (let sys1 = persist (sys\<lparr> pendingTasks := filter (\<lambda>t. taskId t \<noteq> tid) (pendingTasks sys) \<rparr>);
          sys2 = emit (TaskCompleted tid result) sys1
      in (Inr result, sys2))"

definition processTask_reject ::
  "string \<Rightarrow> error \<Rightarrow> ('d, 'r) system \<Rightarrow> (error + 'r) \<times> ('d, 'r) system" where
  "processTask_reject tid err sys = (Inl err, emit (TaskFailed tid (message err)) sys)"

text \<open>
  A submission that the admission controller refuses: the call suspends on the
  rejected promise and resumes in its \<^verbatim>\<open>catch\<close>. Any other progress leaves the call
  suspended.
\<close>

definition processTask_refused ::
  "string \<Rightarrow> 'd \<Rightarrow> int \<Rightarrow> bool \<Rightarrow> int \<Rightarrow> ('d, 'r) system \<Rightarrow> (error + 'r) option \<times> ('d, 'r) system" where
  "processTask_refused tid td prio isRecovered now sys =
     (case processTask_begin tid td prio isRecovered now sys of
        (Refused e, sys') \<Rightarrow> (case processTask_reject tid e sys' of (r, sys'') \<Rightarrow> (Some r, sys''))
      | (pr, sys') \<Rightarrow> (None, sys'))"

text \<open>
  \<^verbatim>\<open>recoverTasks\<close>. The loop body calls \<^verbatim>\<open>processTask(task.taskData, task.priority, true)\<close>,
  which runs up to its suspension before the loop goes on; \<open>env i\<close> gives the
  identifier generated and the clock read in the \<open>i\<close>-th call. The first component of
  the result lists how far each call got. The handler attached with \<^verbatim>\<open>.catch\<close> writes a
  line to the console.
\<close>

fun recover_loop ::
  "(nat \<Rightarrow> string \<times> int) \<Rightarrow> nat \<Rightarrow> 'd task list \<Rightarrow> ('d, 'r) system \<Rightarrow> progress list \<times> ('d, 'r) system" where
  "recover_loop env i [] sys = ([], sys)"
| "recover_loop env i (t # ts) sys =
     (case processTask_begin (fst (env i)) (taskData t) (priority t) True (snd (env i)) sys of
        (pr, sys1) \<Rightarrow>
          (case recover_loop env (Suc i) ts sys1 of
             (prs, sys2) \<Rightarrow> (pr # prs, sys2)))"

definition recoverTasks ::
  "(nat \<Rightarrow> string \<times> int) \<Rightarrow> ('d, 'r) system \<Rightarrow> progress list \<times> ('d, 'r) system" where
  "recoverTasks env sys =
     (let sys1 = (if length (pendingTasks sys) > 0
                  then sys\<lparr> console := console sys @ [Recovering (length (pendingTasks sys))] \<rparr>
                  else sys)
      in recover_loop env 0 (pendingTasks sys1) sys1)"


text \<open>
  The constructor, at clock \<open>now\<close>, with the file as found on disk.
\<close>

definition AsyncProcessingSystem ::
  "options \<Rightarrow> int \<Rightarrow> (nat \<Rightarrow> string \<times> int) \<Rightarrow> 'd task_file \<Rightarrow> bool \<Rightarrow> ('d, 'r) system" where
  "AsyncProcessingSystem opts now env f can_write =
     (case loadTasks f of
        (tasks, lines) \<Rightarrow>
          snd (recoverTasks env
            \<lparr> concurrencyManager =
                ConcurrencyManager (js_or (opt_maxConcurrent opts) 10)
                                   (js_or (opt_queueLimit opts) 1000),
              circuitBreaker = CircuitBreaker None None now,
              isProcessing = False,
              metrics = \<lparr> totalProcessed = 0, totalErrors = 0, avgLatency = 0, startTime = now \<rparr>,
              pendingTasks = tasks,
              disk = f,
              writable = can_write,
              emitted = [],
              console = lines \<rparr>))"

record system_metrics =
  uptime :: int
  throughput :: js_number
  errorRate :: js_number
  latency :: rat
  concurrency :: concurrency_metrics
  circuitBreakerState :: cb_state

definition getSystemMetrics :: "int \<Rightarrow> ('d, 'r) system \<Rightarrow> system_metrics" where
  "getSystemMetrics now sys =
     (let up = now - startTime (metrics sys)
      in \<lparr> uptime = up,
            throughput = js_div (of_nat (totalProcessed (metrics sys))) (of_int up / 1000),
            errorRate = js_div (of_nat (totalErrors (metrics sys)))
                               (of_nat (totalProcessed (metrics sys) + totalErrors (metrics sys))),
            latency = avgLatency (metrics sys),
            concurrency = getMetrics (concurrencyManager sys),
            circuitBreakerState = state (circuitBreaker sys) \<rparr>)"

text \<open>
  Values for concrete runs: the options object \<^verbatim>\<open>{}\<close>, a stored record, and an
  environment that generates the identifier \<^verbatim>\<open>task_new\<close> at clock \<open>1000\<close>.
\<close>

definition no_options :: options where
  "no_options =
     \<lparr> opt_maxConcurrent = None, opt_queueLimit = None,
       opt_failureThreshold = None, opt_recoveryTime = None \<rparr>"

definition old_task :: "string task" where
  "old_task = \<lparr> taskId = ''task_old'', taskData = ''payload'', priority = 0 \<rparr>"

definition new_id :: "nat \<Rightarrow> string \<times> int" where
  "new_id i = (''task_new'', 1000)"

definition tight_options :: options where
  "tight_options =
     \<lparr> opt_maxConcurrent = Some 1, opt_queueLimit = Some 1,
       opt_failureThreshold = None, opt_recoveryTime = None \<rparr>"

definition breaker_options :: options where
  "breaker_options =
     \<lparr> opt_maxConcurrent = None, opt_queueLimit = None,
       opt_failureThreshold = Some 2, opt_recoveryTime = Some 100 \<rparr>"

text \<open>
  A system with one slot and one queue place, after two submissions: \<^verbatim>\<open>task_a\<close> runs
  and \<^verbatim>\<open>task_b\<close> waits.
\<close>

definition full_system :: "(string, string) system" where
  "full_system =
     snd (processTask_begin ''task_b'' ''payload'' 0 False 20
       (snd (processTask_begin ''task_a'' ''payload'' 0 False 10
         (AsyncProcessingSystem tight_options 0 new_id Absent True))))"

text \<open>
  A system whose breaker is open until clock \<open>140\<close>, holding two pending records, and
  an environment whose first call reads the clock at \<open>90\<close> and whose later calls read
  it at \<open>190\<close>.
\<close>

definition tripped_system :: "(string, string) system" where
  "tripped_system =
     \<lparr> concurrencyManager = ConcurrencyManager 2 5,
       circuitBreaker =
         \<lparr> failureThreshold = 2, recoveryTime = 100, failures = 2, state = OPEN,
           nextAttempt = 140 \<rparr>,
       isProcessing = False,
       metrics = \<lparr> totalProcessed = 0, totalErrors = 2, avgLatency = 0, startTime = 0 \<rparr>,
       pendingTasks = [old_task, \<lparr> taskId = ''task_older'', taskData = ''other'', priority = 3 \<rparr>],
       disk = Tasks [old_task, \<lparr> taskId = ''task_older'', taskData = ''other'', priority = 3 \<rparr>],
       writable = True,
       emitted = [],
       console = [] \<rparr>"



section \<open>Properties of the circuit breaker\<close>

lemma cb_inv_new: "cb_inv (CircuitBreaker threshold recovery now)"
  by (simp add: cb_inv_def CircuitBreaker_def)

lemma cb_inv_gate: "cb_inv b \<Longrightarrow> cb_gate now b = Inr b' \<Longrightarrow> cb_inv b'"
  by (auto simp: cb_inv_def cb_gate_def split: if_splits)

lemma cb_inv_reset: "cb_inv (cb_reset b)"
  by (simp add: cb_inv_def cb_reset_def)

lemma cb_inv_fail: "cb_inv b \<Longrightarrow> cb_inv (cb_fail now b)"
  by (auto simp: cb_inv_def cb_fail_def Let_def)

lemma cb_inv_settle: "cb_inv b \<Longrightarrow> cb_inv (cb_settle now outcome b)"
  by (simp add: cb_settle_def cb_inv_reset cb_inv_fail split: sum.splits)

lemma cb_inv_execute: "cb_inv (fst bw) \<Longrightarrow> cb_inv (fst (snd (cb_execute t1 t2 fn bw)))"
  by (auto simp: cb_execute_def cb_inv_reset cb_inv_fail split: sum.splits prod.splits
           dest: cb_inv_gate)

lemma cb_execute_params:
  "failureThreshold (fst (snd (cb_execute t1 t2 fn bw))) = failureThreshold (fst bw) \<and>
   recoveryTime (fst (snd (cb_execute t1 t2 fn bw))) = recoveryTime (fst bw)"
  by (auto simp: cb_execute_def cb_gate_def cb_reset_def cb_fail_def Let_def
           split: sum.splits prod.splits if_splits)

text \<open>
  One whole call as the composition of its two segments.
\<close>

lemma cb_execute_segments:
  "cb_execute t1 t2 fn (b, w) =
     (case cb_gate t1 b of
        Inl e \<Rightarrow> (Inl e, b, w)
      | Inr b1 \<Rightarrow> (fst (fn w), cb_settle t2 (fst (fn w)) b1, snd (fn w)))"
  by (auto simp: cb_execute_def cb_settle_def split: sum.splits prod.splits)

text \<open>
  A call whose operation fails leaves the breaker open, unless the breaker was closed
  and the count is still below the threshold.
\<close>

lemma cb_failed_call:
  assumes "cb_inv b" "isl (fst (fn w))"
  shows "state (fst (snd (cb_execute t1 t2 fn (b, w)))) = OPEN \<or>
         (state b = CLOSED \<and> state (fst (snd (cb_execute t1 t2 fn (b, w)))) = CLOSED \<and>
          failures (fst (snd (cb_execute t1 t2 fn (b, w)))) = failures b + 1 \<and>
          failures b + 1 < failureThreshold b)"
  using assms
  by (cases "state b")
     (auto simp: cb_execute_def cb_gate_def cb_fail_def cb_inv_def Let_def
           split: sum.splits prod.splits)

lemma cb_failed_calls_open:
  assumes "cb_inv b" "state b = OPEN" "\<forall>c \<in> set cs. \<forall>w. isl (fst (snd (snd c) w))"
  shows "state (fst (cb_calls cs (b, w))) = OPEN"
  using assms
proof (induction cs arbitrary: b w)
  case Nil
  then show ?case by simp
next
  case (Cons c cs)
  obtain t1 t2 fn where c: "c = (t1, t2, fn)" by (cases c)
  obtain r b1 w1 where ex: "cb_execute t1 t2 fn (b, w) = (r, b1, w1)"
    by (cases "cb_execute t1 t2 fn (b, w)")
  have fails: "isl (fst (fn w))" using Cons.prems(3) c by simp
  have "state b1 = OPEN"
    using cb_failed_call[of b fn w t1 t2] Cons.prems(1) fails Cons.prems(2) ex by simp
  moreover have "cb_inv b1"
    using cb_inv_execute[of "(b, w)" t1 t2 fn] Cons.prems(1) ex by simp
  ultimately have "state (fst (cb_calls cs (b1, w1))) = OPEN"
    using Cons.IH Cons.prems(3) by simp
  then show ?case using c ex by simp
qed

lemma cb_failed_calls:
  assumes "cb_inv b" "\<forall>c \<in> set cs. \<forall>w. isl (fst (snd (snd c) w))" "cs \<noteq> []"
  shows "state (fst (cb_calls cs (b, w))) = OPEN \<or>
         failures b + int (length cs) < failureThreshold b"
  using assms
proof (induction cs arbitrary: b w)
  case Nil
  then show ?case by simp
next
  case (Cons c cs)
  obtain t1 t2 fn where c: "c = (t1, t2, fn)" by (cases c)
  obtain r b1 w1 where ex: "cb_execute t1 t2 fn (b, w) = (r, b1, w1)"
    by (cases "cb_execute t1 t2 fn (b, w)")
  have fails: "isl (fst (fn w))" using Cons.prems(2) c by simp
  have inv1: "cb_inv b1"
    using cb_inv_execute[of "(b, w)" t1 t2 fn] Cons.prems(1) ex by simp
  have thr: "failureThreshold b1 = failureThreshold b"
    using cb_execute_params[of t1 t2 fn "(b, w)"] ex by simp
  have rest: "\<forall>c \<in> set cs. \<forall>w. isl (fst (snd (snd c) w))" using Cons.prems(2) by simp
  have step: "state b1 = OPEN \<or>
              (failures b1 = failures b + 1 \<and> failures b + 1 < failureThreshold b)"
    using cb_failed_call[of b fn w t1 t2] Cons.prems(1) fails ex by auto
  show ?case
  proof (cases "state b1 = OPEN")
    case True
    then show ?thesis using cb_failed_calls_open[OF inv1 True rest] c ex by simp
  next
    case False
    then have f1: "failures b1 = failures b + 1" "failures b + 1 < failureThreshold b"
      using step by auto
    show ?thesis
    proof (cases "cs = []")
      case True
      then show ?thesis using f1 by simp
    next
      case nonempty: False
      have "state (fst (cb_calls cs (b1, w1))) = OPEN \<or>
            failures b1 + int (length cs) < failureThreshold b1"
        using Cons.IH[OF inv1 rest nonempty] .
      then show ?thesis using c ex f1 thr by auto
    qed
  qed
qed

text \<open>
  Claim C4. Take a breaker in a state the code can reach (\<open>cb_inv\<close>) with a threshold of
  at least one, and make at least \<open>failureThreshold\<close> calls in a row whose wrapped
  operation fails whenever it is invoked. The breaker is then \<open>OPEN\<close>. A call made
  while it is open, at a clock reading that is not past \<open>nextAttempt\<close>, returns the
  \<open>CircuitOpen\<close> error; the breaker (its state, its failure count, its next attempt
  time) is unchanged and so is the world of the wrapped operation, whatever the
  operation is: it was not invoked.
\<close>

theorem breaker_opens_then_rejects:
  assumes "cb_inv b" and "1 \<le> failureThreshold b"
    and "failureThreshold b \<le> int (length cs)"
    and "\<forall>c \<in> set cs. \<forall>w. isl (fst (snd (snd c) w))"
    and "cb_calls cs (b, w) = (b', w')"
  shows "state b' = OPEN \<and>
         (now \<le> nextAttempt b' \<longrightarrow>
            cb_execute now t_done fn (b', v) = (Inl CircuitOpen, b', v))"
proof -
  have ne: "cs \<noteq> []" using assms(2,3) by auto
  have nonneg: "0 \<le> failures b" using assms(1) by (simp add: cb_inv_def)
  have "state (fst (cb_calls cs (b, w))) = OPEN \<or>
        failures b + int (length cs) < failureThreshold b"
    using cb_failed_calls[OF assms(1) assms(4) ne] .
  then have "state b' = OPEN" using nonneg assms(3,5) by auto
  then show ?thesis by (simp add: cb_execute_def cb_gate_def)
qed

theorem breaker_opens_then_rejects_witness:
  "cb_calls [(10, 20, failing_op), (30, 40, failing_op)] (CircuitBreaker (Some 2) (Some 100) 0, 0) =
     (\<lparr> failureThreshold = 2, recoveryTime = 100, failures = 2, state = OPEN, nextAttempt = 140 \<rparr>, 2) \<and>
   cb_execute 90 95 working_op
     (\<lparr> failureThreshold = 2, recoveryTime = 100, failures = 2, state = OPEN, nextAttempt = 140 \<rparr>, 2) =
     (Inl CircuitOpen,
      \<lparr> failureThreshold = 2, recoveryTime = 100, failures = 2, state = OPEN, nextAttempt = 140 \<rparr>, 2)"
proof -
  let ?b = "CircuitBreaker (Some 2) (Some 100) 0"
  let ?b' = "\<lparr> failureThreshold = 2, recoveryTime = 100, failures = 2, state = OPEN, nextAttempt = 140 \<rparr>"
  let ?cs = "[(10, 20, failing_op), (30, 40, failing_op)]"
  have inv: "cb_inv ?b" by (rule cb_inv_new)
  have thr: "1 \<le> failureThreshold ?b" by (simp add: CircuitBreaker_def)
  have len: "failureThreshold ?b \<le> int (length ?cs)" by (simp add: CircuitBreaker_def)
  have fails: "\<forall>c \<in> set ?cs. \<forall>w. isl (fst (snd (snd c) w))" by (simp add: failing_op_def)
  have run: "cb_calls ?cs (?b, 0) = (?b', 2)"
    by (simp add: cb_execute_def cb_gate_def cb_fail_def CircuitBreaker_def failing_op_def
                  numeral_2_eq_2)
  have "90 \<le> nextAttempt ?b' \<longrightarrow> cb_execute 90 95 working_op (?b', 2) = (Inl CircuitOpen, ?b', 2)"
    using breaker_opens_then_rejects[OF inv thr len fails run, of 90 95 working_op 2] by simp
  then show ?thesis using run by simp
qed

text \<open>
  While no admitted call succeeds, the failure count stays at or above the threshold
  once it is there.
\<close>

lemma cb_segment_keeps_threshold:
  assumes "failureThreshold b \<le> failures b" "\<not> succeeded ev"
  shows "failureThreshold (cb_segment ev b) \<le> failures (cb_segment ev b) \<and>
         failureThreshold (cb_segment ev b) = failureThreshold b \<and>
         recoveryTime (cb_segment ev b) = recoveryTime b"
proof (cases ev)
  case (Enter t)
  then show ?thesis using assms(1) by (auto simp: cb_gate_def)
next
  case (Leave t outcome)
  then obtain e where "outcome = Inl e" using assms(2) by (cases outcome) auto
  then show ?thesis using Leave assms(1) by (simp add: cb_settle_def cb_fail_def Let_def)
qed

lemma cb_segments_keep_threshold:
  assumes "failureThreshold b \<le> failures b" "\<forall>ev \<in> set evs. \<not> succeeded ev"
  shows "failureThreshold (cb_segments evs b) \<le> failures (cb_segments evs b) \<and>
         failureThreshold (cb_segments evs b) = failureThreshold b \<and>
         recoveryTime (cb_segments evs b) = recoveryTime b"
  using assms
proof (induction evs arbitrary: b)
  case Nil
  then show ?case by simp
next
  case (Cons ev evs)
  have step: "failureThreshold (cb_segment ev b) \<le> failures (cb_segment ev b)"
    "failureThreshold (cb_segment ev b) = failureThreshold b"
    "recoveryTime (cb_segment ev b) = recoveryTime b"
    using cb_segment_keeps_threshold[of b ev] Cons.prems by simp_all
  have rest: "\<forall>ev \<in> set evs. \<not> succeeded ev" using Cons.prems(2) by simp
  show ?case using Cons.IH[OF step(1) rest] step(2,3) by simp
qed

text \<open>
  Claim C6, as the code has it. Take a breaker in a state the code can reach that is
  half-open, or open with the clock past \<open>nextAttempt\<close>. The gate lets the call
  through, half-open, and the wrapped operation is invoked. If the operation
  succeeds, its result is returned and the breaker is \<open>CLOSED\<close> with a failure count
  of 0, whatever other calls did meanwhile. If it fails, and no other call has
  succeeded since this one was admitted (other calls may have entered, been refused
  or failed), the failure count is one more than before the failure and the breaker
  is \<open>OPEN\<close> with \<open>nextAttempt\<close> set to the clock at the failure plus \<open>recoveryTime\<close>.
  The last two parts state the same for a call that nothing overlaps.
\<close>

theorem half_open_probe:
  assumes "cb_inv b"
    and "state b = HALF_OPEN \<or> (state b = OPEN \<and> nextAttempt b < t_call)"
    and "\<forall>ev \<in> set others. \<not> succeeded ev"
  shows "cb_gate t_call b = Inr (b\<lparr> state := HALF_OPEN \<rparr>) \<and>
         cb_settle t_done (Inr r) (cb_segments others (b\<lparr> state := HALF_OPEN \<rparr>)) =
           (cb_segments others (b\<lparr> state := HALF_OPEN \<rparr>))\<lparr> failures := 0, state := CLOSED \<rparr> \<and>
         cb_settle t_done (Inl e :: error + 'r) (cb_segments others (b\<lparr> state := HALF_OPEN \<rparr>)) =
           (cb_segments others (b\<lparr> state := HALF_OPEN \<rparr>))
             \<lparr> failures := failures (cb_segments others (b\<lparr> state := HALF_OPEN \<rparr>)) + 1,
               state := OPEN,
               nextAttempt := t_done + recoveryTime b \<rparr> \<and>
         (fn w = (Inr r, w') \<longrightarrow>
            cb_execute t_call t_done fn (b, w) =
              (Inr (r :: 'r), b\<lparr> failures := 0, state := CLOSED \<rparr>, w')) \<and>
         (fn w = (Inl e, w') \<longrightarrow>
            cb_execute t_call t_done fn (b, w) =
              (Inl e,
               b\<lparr> failures := failures b + 1, state := OPEN,
                   nextAttempt := t_done + recoveryTime b \<rparr>, w'))"
proof -
  let ?probe = "b\<lparr> state := HALF_OPEN \<rparr>"
  let ?later = "cb_segments others ?probe"
  have thr: "failureThreshold b \<le> failures b"
    using assms(1,2) by (auto simp: cb_inv_def)
  have gate: "cb_gate t_call b = Inr ?probe"
    using assms(2) by (auto simp: cb_gate_def)
  have "failureThreshold ?probe \<le> failures ?probe" using thr by simp
  from cb_segments_keep_threshold[OF this assms(3)]
  have later: "failureThreshold ?later \<le> failures ?later" "recoveryTime ?later = recoveryTime b"
    by simp_all
  have ok: "cb_settle t_done (Inr r) ?later = ?later\<lparr> failures := 0, state := CLOSED \<rparr>"
    by (simp add: cb_settle_def cb_reset_def)
  have ko: "cb_settle t_done (Inl e :: error + 'r) ?later =
              ?later\<lparr> failures := failures ?later + 1, state := OPEN,
                       nextAttempt := t_done + recoveryTime b \<rparr>"
    using later by (simp add: cb_settle_def cb_fail_def Let_def)
  have whole: "(fn w = (Inr r, w') \<longrightarrow>
            cb_execute t_call t_done fn (b, w) =
              (Inr r, b\<lparr> failures := 0, state := CLOSED \<rparr>, w')) \<and>
         (fn w = (Inl e, w') \<longrightarrow>
            cb_execute t_call t_done fn (b, w) =
              (Inl e,
               b\<lparr> failures := failures b + 1, state := OPEN,
                   nextAttempt := t_done + recoveryTime b \<rparr>, w'))"
    using assms(2) thr
    by (auto simp: cb_execute_def cb_gate_def cb_reset_def cb_fail_def Let_def)
  show ?thesis using gate ok ko whole by blast
qed

theorem half_open_probe_witness:
  "cb_gate 190 \<lparr> failureThreshold = 2, recoveryTime = 100, failures = 2, state = OPEN, nextAttempt = 140 \<rparr> =
     Inr \<lparr> failureThreshold = 2, recoveryTime = 100, failures = 2, state = HALF_OPEN, nextAttempt = 140 \<rparr> \<and>
   cb_settle 200 (Inl ExternalServiceError :: error + string)
     (cb_segments [Enter 195, Leave 198 (Inl ExternalServiceError :: error + string)]
        \<lparr> failureThreshold = 2, recoveryTime = 100, failures = 2, state = HALF_OPEN, nextAttempt = 140 \<rparr>) =
     \<lparr> failureThreshold = 2, recoveryTime = 100, failures = 4, state = OPEN, nextAttempt = 300 \<rparr> \<and>
   cb_execute 190 200 working_op
     (\<lparr> failureThreshold = 2, recoveryTime = 100, failures = 2, state = OPEN, nextAttempt = 140 \<rparr>, 2) =
     (Inr ''done'',
      \<lparr> failureThreshold = 2, recoveryTime = 100, failures = 0, state = CLOSED, nextAttempt = 140 \<rparr>, 3) \<and>
   cb_execute 190 200 failing_op
     (\<lparr> failureThreshold = 2, recoveryTime = 100, failures = 2, state = OPEN, nextAttempt = 140 \<rparr>, 2) =
     (Inl ExternalServiceError,
      \<lparr> failureThreshold = 2, recoveryTime = 100, failures = 3, state = OPEN, nextAttempt = 300 \<rparr>, 3)"
proof -
  let ?b = "\<lparr> failureThreshold = 2, recoveryTime = 100, failures = 2, state = OPEN, nextAttempt = 140 \<rparr>"
  let ?others = "[Enter 195, Leave 198 (Inl ExternalServiceError :: error + string)]"
  have inv: "cb_inv ?b" by (simp add: cb_inv_def)
  have probe: "state ?b = HALF_OPEN \<or> (state ?b = OPEN \<and> nextAttempt ?b < 190)" by simp
  have quiet: "\<forall>ev \<in> set ?others. \<not> succeeded ev" by simp
  have ok: "working_op 2 = (Inr ''done'', 3)" by (simp add: working_op_def)
  have ko: "failing_op 2 = (Inl ExternalServiceError, 3)" by (simp add: failing_op_def)
  have later: "cb_segments ?others (?b\<lparr> state := HALF_OPEN \<rparr>) =
          \<lparr> failureThreshold = 2, recoveryTime = 100, failures = 3, state = OPEN, nextAttempt = 298 \<rparr>"
    by (simp add: cb_gate_def cb_settle_def cb_fail_def)
  show ?thesis
    using half_open_probe[OF inv probe quiet, where fn = working_op and w = 2 and r = "''done''"
                            and w' = 3 and t_done = 200 and e = ExternalServiceError]
          half_open_probe[OF inv probe quiet, where fn = failing_op and w = 2 and r = "''done''"
                            and w' = 3 and t_done = 200 and e = ExternalServiceError]
          ok ko later
    by simp
qed

text \<open>
  The statement of claim C6 fails when calls overlap, since the gate admits every call
  that finds the breaker half-open. A breaker built with the defaults opens after five
  failures. A probe is admitted at clock \<open>6000\<close>; a second call is admitted at \<open>6001\<close>
  and succeeds at \<open>6500\<close>, which closes the breaker and clears the count; the probe
  fails at \<open>6600\<close>: the count is 1, the breaker stays \<open>CLOSED\<close> and \<open>nextAttempt\<close> is
  not recomputed.
\<close>

theorem probe_failure_after_overlapping_success:
  "cb_calls [(10, 20, failing_op), (30, 40, failing_op), (50, 60, failing_op),
             (70, 80, failing_op), (90, 100, failing_op)] (CircuitBreaker None None 0, 0) =
     (\<lparr> failureThreshold = 5, recoveryTime = 5000, failures = 5, state = OPEN, nextAttempt = 5100 \<rparr>, 5) \<and>
   cb_gate 6000
     \<lparr> failureThreshold = 5, recoveryTime = 5000, failures = 5, state = OPEN, nextAttempt = 5100 \<rparr> =
     Inr \<lparr> failureThreshold = 5, recoveryTime = 5000, failures = 5, state = HALF_OPEN, nextAttempt = 5100 \<rparr> \<and>
   cb_segments [Enter 6001, Leave 6500 (Inr ''done'')]
     \<lparr> failureThreshold = 5, recoveryTime = 5000, failures = 5, state = HALF_OPEN, nextAttempt = 5100 \<rparr> =
     \<lparr> failureThreshold = 5, recoveryTime = 5000, failures = 0, state = CLOSED, nextAttempt = 5100 \<rparr> \<and>
   cb_settle 6600 (Inl ExternalServiceError :: error + string)
     \<lparr> failureThreshold = 5, recoveryTime = 5000, failures = 0, state = CLOSED, nextAttempt = 5100 \<rparr> =
     \<lparr> failureThreshold = 5, recoveryTime = 5000, failures = 1, state = CLOSED, nextAttempt = 5100 \<rparr>"
  by (simp add: cb_execute_def cb_gate_def cb_settle_def cb_reset_def cb_fail_def
                CircuitBreaker_def failing_op_def)


section \<open>Properties of the admission controller\<close>

subsection \<open>The queue after an insertion\<close>

lemma descending_Cons: "descending (z # zs) \<longleftrightarrow> (\<forall>r \<in> set zs. req_priority r \<le> req_priority z) \<and> descending zs"
  by (auto simp: descending_def)

lemma insort_front:
  "\<forall>r \<in> set L. req_priority r \<le> req_priority z \<Longrightarrow>
   insort_key (\<lambda>r. - req_priority r) z L = z # L"
  by (cases L) auto

lemma js_sort_snoc:
  "descending q \<Longrightarrow>
   js_sort (q @ [n]) =
     takeWhile (\<lambda>r. req_priority n \<le> req_priority r) q @ n #
     dropWhile (\<lambda>r. req_priority n \<le> req_priority r) q"
proof (induction q)
  case Nil then show ?case by (simp add: js_sort_def)
next
  case (Cons z zs)
  let ?P = "\<lambda>r. req_priority n \<le> req_priority r"
  have le: "\<forall>r \<in> set zs. req_priority r \<le> req_priority z" and d: "descending zs"
    using Cons.prems by (auto simp: descending_Cons)
  have IH: "js_sort (zs @ [n]) = takeWhile ?P zs @ n # dropWhile ?P zs"
    using Cons.IH d by simp
  have unfold: "js_sort ((z # zs) @ [n]) = insort_key (\<lambda>r. - req_priority r) z (js_sort (zs @ [n]))"
    by (simp add: js_sort_def)
  show ?case
  proof (cases "?P z")
    case True
    have "\<forall>r \<in> set (takeWhile ?P zs @ n # dropWhile ?P zs). req_priority r \<le> req_priority z"
      using le True by (auto dest: set_takeWhileD set_dropWhileD)
    then show ?thesis using unfold IH True by (simp add: insort_front)
  next
    case False
    have none: "\<forall>r \<in> set zs. \<not> ?P r" using le False by auto
    have tw: "takeWhile ?P zs = []" using none by (cases zs) auto
    have dw: "dropWhile ?P zs = zs" using none by (cases zs) auto
    have "insort_key (\<lambda>r. - req_priority r) z (n # zs) = n # z # zs"
      using False le by (simp add: insort_front)
    then show ?thesis using unfold IH False tw dw by simp
  qed
qed

lemma descending_js_sort: "descending (js_sort q)"
  by (simp add: descending_def js_sort_def)

lemma descending_tl: "descending q \<Longrightarrow> descending (tl q)"
  by (cases q) (auto simp: descending_Cons descending_def)

lemma dropWhile_lower:
  "descending q \<Longrightarrow> r \<in> set (dropWhile (\<lambda>r. p \<le> req_priority r) q) \<Longrightarrow> req_priority r < p"
proof (induction q)
  case Nil then show ?case by simp
next
  case (Cons z zs)
  then show ?case by (fastforce simp: descending_Cons split: if_splits)
qed


lemma queue_after_enqueue:
  assumes "descending (queue m)" "cm_execute f p m = (Enqueued, m')"
  shows "queue m' = takeWhile (\<lambda>r. p \<le> req_priority r) (queue m) @
                    \<lparr> req_fn = f, req_priority = p \<rparr> #
                    dropWhile (\<lambda>r. p \<le> req_priority r) (queue m)"
  using assms js_sort_snoc[of "queue m" "\<lparr> req_fn = f, req_priority = p \<rparr>"]
  by (auto simp: cm_execute_def split: if_splits)

lemma subseq_insert_mid: "subseq (xs @ ys) (xs @ z # ys)"
  by (simp add: subseq_append' list_emb_Cons)

lemma cm_step_timeline:
  assumes "descending (queue m)" "cm_step e (m, g) = (m', g')"
  shows "descending (queue m') \<and>
         subseq (timeline (m, g)) (timeline (m', g')) \<and>
         set (timeline (m', g')) \<subseteq> set (timeline (m, g)) \<union> set (submitted [e]) \<and>
         (distinct (timeline (m, g) @ submitted [e]) \<longrightarrow> distinct (timeline (m', g')))"
proof (cases e)
  case (Submit f p)
  obtain a m1 where ex: "cm_execute f p m = (a, m1)" by (cases "cm_execute f p m")
  show ?thesis
  proof (cases a)
    case (Rejected err)
    then have "m' = m" "g' = g" using assms(2) Submit ex by (auto simp: cm_execute_def split: if_splits)
    then show ?thesis using assms(1) by (auto simp: timeline_def)
  next
    case Enqueued
    let ?P = "\<lambda>r. p \<le> req_priority r"
    let ?n = "\<lparr> req_fn = f, req_priority = p \<rparr>"
    have m': "m' = m1" "g' = g" using assms(2) Submit ex Enqueued by auto
    have q: "queue m' = takeWhile ?P (queue m) @ ?n # dropWhile ?P (queue m)"
      using queue_after_enqueue[OF assms(1)] ex Enqueued m' by simp
    have split: "map req_fn (queue m) = map req_fn (takeWhile ?P (queue m)) @ map req_fn (dropWhile ?P (queue m))"
      by (metis map_append takeWhile_dropWhile_id)
    have q': "map req_fn (queue m') = map req_fn (takeWhile ?P (queue m)) @ f # map req_fn (dropWhile ?P (queue m))"
      using q by simp
    have d: "descending (queue m')" using ex Enqueued m' by (auto simp: cm_execute_def descending_js_sort split: if_splits)
    have s: "subseq (timeline (m, g)) (timeline (m', g'))"
      unfolding timeline_def using m' split q' by (simp add: subseq_append' list_emb_Cons)
    have st: "set (timeline (m', g')) \<subseteq> set (timeline (m, g)) \<union> set (submitted [e])"
      unfolding timeline_def using m' Submit split q' 
      by (simp add: subset_iff)
    have dist: "distinct (timeline (m, g) @ submitted [e]) \<longrightarrow> distinct (timeline (m', g'))"
      unfolding timeline_def using m' Submit split q' by auto
    show ?thesis using d s st dist by blast
  next
    case Started
    then have "m' = cm_run m" "g' = g @ [f]" using assms(2) Submit ex by (auto simp: cm_execute_def split: if_splits)
    then show ?thesis using assms(1) Submit by (auto simp: timeline_def cm_run_def subseq_insert_mid)
  qed
next
  case Release
  show ?thesis
  proof (cases "activeCount m \<le> 0 \<or> queue m = []")
    case True
    then have "queue m' = queue m" "g' = g" using assms(2) Release
      by (auto simp: cm_finally_def Let_def split: if_splits list.splits)
    then show ?thesis using assms(1) by (auto simp: timeline_def)
  next
    case False
    then obtain z zs where q: "queue m = z # zs" by (cases "queue m") auto
    then have "queue m' = zs" "g' = g @ [req_fn z]" using assms(2) Release False
      by (auto simp: cm_finally_def cm_run_def Let_def split: if_splits)
    then show ?thesis using assms(1) q Release by (auto simp: timeline_def descending_Cons)
  qed
qed


lemma submitted_Cons: "submitted (e # es) = submitted [e] @ submitted es"
  by (cases e) simp_all

lemma submitted_append: "submitted (es @ fs) = submitted es @ submitted fs"
  by (induction es rule: submitted.induct) simp_all

lemma cm_steps_append: "cm_steps (es @ fs) s = cm_steps fs (cm_steps es s)"
  by (induction es arbitrary: s) simp_all

lemma cm_steps_timeline:
  assumes "descending (queue (fst s))" "distinct (timeline s @ submitted evs)"
  shows "descending (queue (fst (cm_steps evs s))) \<and>
         subseq (timeline s) (timeline (cm_steps evs s)) \<and>
         set (timeline (cm_steps evs s)) \<subseteq> set (timeline s) \<union> set (submitted evs) \<and>
         distinct (timeline (cm_steps evs s))"
  using assms
proof (induction evs arbitrary: s)
  case Nil then show ?case by simp
next
  case (Cons e es)
  obtain m g where s: "s = (m, g)" by (cases s)
  obtain m1 g1 where s1: "cm_step e (m, g) = (m1, g1)" by (cases "cm_step e (m, g)")
  have d0: "descending (queue m)" using Cons.prems(1) s by simp
  have dist0: "distinct (timeline (m, g) @ submitted [e] @ submitted es)"
    using Cons.prems(2) s submitted_Cons[of e es] by simp
  have step: "descending (queue m1)" "subseq (timeline (m, g)) (timeline (m1, g1))"
    "set (timeline (m1, g1)) \<subseteq> set (timeline (m, g)) \<union> set (submitted [e])"
    "distinct (timeline (m1, g1))"
    using cm_step_timeline[OF d0 s1] dist0 by auto
  have dist1: "distinct (timeline (m1, g1) @ submitted es)"
    using step(3,4) dist0 by auto
  have IH: "descending (queue (fst (cm_steps es (m1, g1))))"
    "subseq (timeline (m1, g1)) (timeline (cm_steps es (m1, g1)))"
    "set (timeline (cm_steps es (m1, g1))) \<subseteq> set (timeline (m1, g1)) \<union> set (submitted es)"
    "distinct (timeline (cm_steps es (m1, g1)))"
    using Cons.IH[of "(m1, g1)"] step(1) dist1 by auto
  have sub: "subseq (timeline s) (timeline (cm_steps (e # es) s))"
    using step(2) IH(2) s s1 by (auto intro: subseq_order.trans)
  have st: "set (timeline (cm_steps (e # es) s)) \<subseteq> set (timeline s) \<union> set (submitted (e # es))"
    using step(3) IH(3) s s1 submitted_Cons[of e es] by auto
  show ?case using IH(1,4) sub st s s1 by simp
qed

lemma cm_step_arrivals:
  assumes "descending (queue m)" "arrival_order A (queue m)" "cm_step e (m, g) = (m', g')"
  shows "arrival_order (A @ submitted [e]) (queue m')"
proof (cases e)
  case (Submit f p)
  obtain a m1 where ex: "cm_execute f p m = (a, m1)" by (cases "cm_execute f p m")
  show ?thesis
  proof (cases a)
    case (Rejected err)
    then have "queue m' = queue m" using assms(3) Submit ex by (auto simp: cm_execute_def split: if_splits)
    then show ?thesis using assms(2) by (auto simp: arrival_order_def intro: subseq_rev_drop_many)
  next
    case Started
    then have "queue m' = queue m" using assms(3) Submit ex by (auto simp: cm_execute_def cm_run_def split: if_splits)
    then show ?thesis using assms(2) by (auto simp: arrival_order_def intro: subseq_rev_drop_many)
  next
    case Enqueued
    let ?P = "\<lambda>r. p \<le> req_priority r"
    let ?n = "\<lparr> req_fn = f, req_priority = p \<rparr>"
    let ?hi = "takeWhile ?P (queue m)" and ?lo = "dropWhile ?P (queue m)"
    have m': "m' = m1" using assms(3) Submit ex Enqueued by auto
    have q': "queue m' = ?hi @ ?n # ?lo"
      using queue_after_enqueue[OF assms(1)] ex Enqueued m' by simp
    have q: "queue m = ?hi @ ?lo" by simp
    have lo: "\<forall>r \<in> set ?lo. req_priority r < p" using dropWhile_lower[OF assms(1)] by blast
    show ?thesis unfolding arrival_order_def
    proof
      fix k
      let ?F = "\<lambda>xs. map req_fn (filter (\<lambda>r. req_priority r = k) xs)"
      have old: "subseq (?F ?hi @ ?F ?lo) A"
        using assms(2) q unfolding arrival_order_def by (metis filter_append map_append)
      show "subseq (?F (queue m')) (A @ submitted [e])"
      proof (cases "k = p")
        case True
        have "filter (\<lambda>r. req_priority r = k) ?lo = []" using lo True by (auto simp: filter_empty_conv)
        then have eq: "?F (queue m') = (?F ?hi @ ?F ?lo) @ [f]" using q' True by simp
        have "subseq ((?F ?hi @ ?F ?lo) @ [f]) (A @ [f])"
          using old by (intro list_emb_append_mono) auto
        then show ?thesis using eq Submit by simp
      next
        case False
        then have "?F (queue m') = ?F ?hi @ ?F ?lo" using q' by simp
        then show ?thesis using old by (auto intro: subseq_rev_drop_many)
      qed
    qed
  qed
next
  case Release
  have "queue m' = queue m \<or> queue m' = tl (queue m)" using assms(3) Release
    by (auto simp: cm_finally_def cm_run_def Let_def split: if_splits list.splits)
  moreover have "arrival_order A (tl (queue m))"
    using assms(2) unfolding arrival_order_def
  proof (cases "queue m")
    case Nil then show "\<forall>p. subseq (map req_fn (filter (\<lambda>r. req_priority r = p) (tl (queue m)))) A"
      using assms(2) unfolding arrival_order_def by simp
  next
    case (Cons z zs)
    show "\<forall>p. subseq (map req_fn (filter (\<lambda>r. req_priority r = p) (tl (queue m)))) A"
    proof
      fix p
      have "subseq (map req_fn (filter (\<lambda>r. req_priority r = p) zs)) (map req_fn (filter (\<lambda>r. req_priority r = p) (z # zs)))"
        by (auto intro: list_emb_Cons)
      then show "subseq (map req_fn (filter (\<lambda>r. req_priority r = p) (tl (queue m)))) A"
        using assms(2) Cons unfolding arrival_order_def by (metis list.sel(3) subseq_order.trans)
    qed
  qed
  ultimately show ?thesis using assms(2) Release by (auto simp: arrival_order_def)
qed

subsection \<open>Order in a list\<close>

lemma descending_before:
  "descending q \<Longrightarrow> a \<in> set q \<Longrightarrow> b \<in> set q \<Longrightarrow> req_priority b < req_priority a \<Longrightarrow> subseq [a, b] q"
proof (induction q)
  case Nil then show ?case by simp
next
  case (Cons z zs)
  show ?case
  proof (cases "a = z")
    case True
    then have "b \<in> set zs" using Cons.prems by auto
    then show ?thesis using True by (simp add: subseq_singleton_left)
  next
    case False
    then have a: "a \<in> set zs" using Cons.prems by simp
    have "b \<noteq> z" using Cons.prems(1,4) a by (auto simp: descending_Cons)
    then have "b \<in> set zs" using Cons.prems by simp
    then have "subseq [a, b] zs" using Cons a by (simp add: descending_Cons)
    then show ?thesis by (rule list_emb_Cons)
  qed
qed

lemma before_total:
  "a \<in> set xs \<Longrightarrow> b \<in> set xs \<Longrightarrow> a \<noteq> b \<Longrightarrow> subseq [a, b] xs \<or> subseq [b, a] xs"
proof (induction xs)
  case Nil then show ?case by simp
next
  case (Cons z zs)
  then show ?case by (auto simp: subseq_singleton_left)
qed

lemma before_antisym:
  "distinct xs \<Longrightarrow> subseq [a, b] xs \<Longrightarrow> subseq [b, a] xs \<Longrightarrow> False"
proof (induction xs)
  case Nil then show ?case by simp
next
  case (Cons z zs)
  then show ?case
    by (auto simp: subseq_singleton_left split: if_splits dest: list_emb_set)
qed

lemma before_granted:
  assumes "subseq [x, y] (g @ q)" "y \<in> set g" "distinct (g @ q)"
  shows "subseq [x, y] g"
  using assms
proof (induction g)
  case Nil then show ?case by simp
next
  case (Cons z zs)
  then show ?case
    by (auto simp: subseq_singleton_left split: if_splits dest: list_emb_set)
qed

subsection \<open>Grant order\<close>

lemma cm_steps_arrivals:
  assumes "descending (queue m)" "arrival_order A (queue m)" "cm_steps evs (m, g) = (m', g')"
  shows "arrival_order (A @ submitted evs) (queue m')"
  using assms
proof (induction evs arbitrary: m g A)
  case Nil then show ?case by simp
next
  case (Cons e es)
  obtain m1 g1 where s1: "cm_step e (m, g) = (m1, g1)" by (cases "cm_step e (m, g)")
  have d1: "descending (queue m1)" using cm_step_timeline[OF Cons.prems(1) s1] by simp
  have a1: "arrival_order (A @ submitted [e]) (queue m1)"
    using cm_step_arrivals[OF Cons.prems(1,2) s1] .
  have "cm_steps es (m1, g1) = (m', g')" using Cons.prems(3) s1 by simp
  then have "arrival_order ((A @ submitted [e]) @ submitted es) (queue m')"
    using Cons.IH[OF d1 a1] by simp
  then show ?case using submitted_Cons[of e es] by simp
qed

lemma ConcurrencyManager_descending: "descending (queue (ConcurrencyManager C Q))"
  by (simp add: ConcurrencyManager_def descending_def)

lemma ConcurrencyManager_arrivals: "arrival_order [] (queue (ConcurrencyManager C Q))"
  by (simp add: ConcurrencyManager_def arrival_order_def)

lemma ConcurrencyManager_timeline: "timeline (ConcurrencyManager C Q, []) = []"
  by (simp add: ConcurrencyManager_def timeline_def)

text \<open>
  Claim C5. Run the controller from its constructor through any sequence of
  submissions and slot releases in which no operation is submitted twice, and stop at
  a moment when \<open>r1\<close> and \<open>r2\<close> are both in the waiting queue. If \<open>r1\<close> has the higher
  priority, or the two have the same priority and \<open>r1\<close> was submitted first, then
  however the run goes on, \<open>r2\<close> is granted a slot only after \<open>r1\<close> has been granted
  one.
\<close>

theorem priority_then_fifo:
  assumes run1: "cm_steps evs1 (ConcurrencyManager C Q, []) = (m1, g1)"
    and run2: "cm_steps evs2 (m1, g1) = (m2, g2)"
    and fresh: "distinct (submitted (evs1 @ evs2))"
    and w1: "r1 \<in> set (queue m1)" and w2: "r2 \<in> set (queue m1)"
    and ord: "req_priority r2 < req_priority r1 \<or>
              (req_priority r1 = req_priority r2 \<and> before (req_fn r1) (req_fn r2) (submitted evs1))"
    and granted: "req_fn r2 \<in> set g2"
  shows "before (req_fn r1) (req_fn r2) g2"
proof -
  let ?s0 = "(ConcurrencyManager C Q, []) :: 'a manager \<times> 'a list"
  have d0: "descending (queue (fst ?s0))" and t0: "timeline ?s0 = []"
    by (simp_all add: ConcurrencyManager_descending ConcurrencyManager_timeline)
  have dist0: "distinct (timeline ?s0 @ submitted evs1)"
    using fresh t0 by (simp add: submitted_append)
  have r1: "descending (queue m1)" "set (timeline (m1, g1)) \<subseteq> set (submitted evs1)"
    "distinct (timeline (m1, g1))"
    using cm_steps_timeline[OF d0 dist0] run1 t0 by simp_all
  have arr: "arrival_order (submitted evs1) (queue m1)"
    using cm_steps_arrivals[OF ConcurrencyManager_descending ConcurrencyManager_arrivals run1] by simp
  have inq: "subseq [req_fn r1, req_fn r2] (map req_fn (queue m1))"
  proof (cases "req_priority r2 < req_priority r1")
    case True
    have "subseq [r1, r2] (queue m1)" using descending_before[OF r1(1) w1 w2 True] .
    then have "subseq (map req_fn [r1, r2]) (map req_fn (queue m1))" by (rule subseq_map)
    then show ?thesis by simp
  next
    case False
    then have eq: "req_priority r1 = req_priority r2"
      and arrived: "subseq [req_fn r1, req_fn r2] (submitted evs1)"
      using ord by (auto simp: before_def)
    let ?L = "map req_fn (filter (\<lambda>r. req_priority r = req_priority r1) (queue m1))"
    have L: "subseq ?L (submitted evs1)" using arr by (simp add: arrival_order_def)
    have dsub: "distinct (submitted evs1)" using fresh by (simp add: submitted_append)
    have neq: "req_fn r1 \<noteq> req_fn r2"
    proof
      assume "req_fn r1 = req_fn r2"
      then have "subseq [req_fn r2, req_fn r1] (submitted evs1)" using arrived by simp
      then show False using before_antisym[OF dsub arrived] by simp
    qed
    have in1: "req_fn r1 \<in> set ?L" using w1 by auto
    have in2: "req_fn r2 \<in> set ?L" using w2 eq by auto
    have "subseq [req_fn r1, req_fn r2] ?L \<or> subseq [req_fn r2, req_fn r1] ?L"
      using before_total[OF in1 in2 neq] .
    moreover have "\<not> subseq [req_fn r2, req_fn r1] ?L"
    proof
      assume "subseq [req_fn r2, req_fn r1] ?L"
      then have "subseq [req_fn r2, req_fn r1] (submitted evs1)"
        using L by (rule subseq_order.trans)
      then show False using before_antisym[OF dsub arrived] by simp
    qed
    ultimately have "subseq [req_fn r1, req_fn r2] ?L" by simp
    moreover have "subseq ?L (map req_fn (queue m1))" by (intro subseq_map) simp
    ultimately show ?thesis by (rule subseq_order.trans)
  qed
  have tl1: "subseq [req_fn r1, req_fn r2] (timeline (m1, g1))"
    using inq by (simp add: timeline_def subseq_drop_many)
  have dist1: "distinct (timeline (m1, g1) @ submitted evs2)"
    using r1(2,3) fresh by (auto simp: submitted_append)
  have r2: "subseq (timeline (m1, g1)) (timeline (m2, g2))" "distinct (timeline (m2, g2))"
    using cm_steps_timeline[of "(m1, g1)" evs2] r1(1) dist1 run2 by simp_all
  have "subseq [req_fn r1, req_fn r2] (timeline (m2, g2))"
    using tl1 r2(1) by (rule subseq_order.trans)
  then have both: "subseq [req_fn r1, req_fn r2] (g2 @ map req_fn (queue m2))"
    by (simp add: timeline_def)
  have dist2: "distinct (g2 @ map req_fn (queue m2))"
    using r2(2) by (simp add: timeline_def)
  have "subseq [req_fn r1, req_fn r2] g2"
    using both granted dist2 by (rule before_granted)
  then show ?thesis by (simp add: before_def)
qed

theorem priority_then_fifo_witness:
  "snd (cm_steps [Submit ''A'' 0, Submit ''B'' 0, Submit ''C'' 5, Submit ''D'' 0,
                  Release, Release, Release] (ConcurrencyManager 1 5, [])) =
     [''A'', ''C'', ''B'', ''D''] \<and>
   before ''C'' ''B'' [''A'', ''C'', ''B'', ''D''] \<and>
   before ''B'' ''D'' [''A'', ''C'', ''B'', ''D'']"
proof -
  let ?evs = "[Submit ''A'' 0, Submit ''B'' 0, Submit ''C'' 5, Submit ''D'' 0]"
  let ?later = "[Release, Release, Release] :: string cm_event list"
  let ?B = "\<lparr> req_fn = ''B'', req_priority = 0 \<rparr>"
  let ?C = "\<lparr> req_fn = ''C'', req_priority = 5 \<rparr>"
  let ?D = "\<lparr> req_fn = ''D'', req_priority = 0 \<rparr>"
  let ?m = "\<lparr> maxConcurrent = 1, queueLimit = 5, activeCount = 1, queue = [?C, ?B, ?D] \<rparr>"
  let ?m' = "\<lparr> maxConcurrent = 1, queueLimit = 5, activeCount = 1,
               queue = [] :: string request list \<rparr>"
  have run: "cm_steps ?evs (ConcurrencyManager 1 5, []) = (?m, [''A''])"
    by (simp add: ConcurrencyManager_def cm_execute_def cm_run_def js_sort_def)
  have rest: "cm_steps ?later (?m, [''A'']) = (?m', [''A'', ''C'', ''B'', ''D''])"
    by (simp add: cm_finally_def cm_run_def)
  have fresh: "distinct (submitted (?evs @ ?later))" by simp
  have arrived: "before ''B'' ''D'' (submitted ?evs)" by (simp add: before_def)
  have cb: "before ''C'' ''B'' [''A'', ''C'', ''B'', ''D'']"
    using priority_then_fifo[OF run rest fresh, of ?C ?B] by simp
  have bd: "before ''B'' ''D'' [''A'', ''C'', ''B'', ''D'']"
    using priority_then_fifo[OF run rest fresh, of ?B ?D] arrived by simp
  have "cm_steps (?evs @ ?later) (ConcurrencyManager 1 5, []) = (?m', [''A'', ''C'', ''B'', ''D''])"
    using run rest by (simp only: cm_steps_append)
  then show ?thesis using cb bd by simp
qed

subsection \<open>Bounds and the full queue\<close>

lemma cm_execute_inv: "cm_inv m \<Longrightarrow> cm_inv (snd (cm_execute f p m))"
  by (auto simp: cm_inv_def cm_execute_def cm_run_def js_sort_def)

lemma cm_finally_inv: "cm_inv m \<Longrightarrow> cm_inv (snd (cm_finally m))"
  by (auto simp: cm_inv_def cm_finally_def cm_run_def Let_def split: list.splits)

lemma cm_step_inv: "cm_inv (fst s) \<Longrightarrow> cm_inv (fst (cm_step e s))"
proof (cases s)
  case (Pair m g)
  assume inv: "cm_inv (fst s)"
  show ?thesis
  proof (cases e)
    case (Submit f p)
    then show ?thesis using Pair inv cm_execute_inv[of m f p]
      by (cases "cm_execute f p m") (auto split: admission.splits)
  next
    case Release
    then show ?thesis using Pair inv cm_finally_inv[of m]
      by (cases "cm_finally m") (auto split: option.splits)
  qed
qed

lemma cm_steps_inv: "cm_inv (fst s) \<Longrightarrow> cm_inv (fst (cm_steps evs s))"
  by (induction evs arbitrary: s) (simp_all add: cm_step_inv)

text \<open>
  Claim C10. A submission and a slot release each keep both bounds,
  \<open>activeCount \<le> maxConcurrent\<close> and \<open>length queue \<le> queueLimit\<close>. A request is
  enqueued only when the queue holds fewer than \<open>queueLimit\<close> entries; a submission
  starts its operation only when the count is below \<open>maxConcurrent\<close>; a release
  starts a waiting operation only after taking one off the count, which it leaves as
  it was. With \<open>maxConcurrent \<ge> 1\<close> (and a queue limit that is not negative) every
  state reached from the constructor is within the bounds.
\<close>

theorem admission_bounds:
  "(cm_inv m \<longrightarrow> cm_inv (snd (cm_execute f p m)) \<and> cm_inv (snd (cm_finally m))) \<and>
   (fst (cm_execute f p m) = Enqueued \<longrightarrow> int (length (queue m)) < queueLimit m) \<and>
   (fst (cm_execute f p m) = Started \<longrightarrow> activeCount m < maxConcurrent m) \<and>
   (fst (cm_finally m) \<noteq> None \<longrightarrow> activeCount (snd (cm_finally m)) = activeCount m - 1 + 1) \<and>
   (1 \<le> C \<and> 0 \<le> Q \<longrightarrow> cm_inv (fst (cm_steps evs (ConcurrencyManager C Q, g))))"
proof -
  have a: "cm_inv m \<longrightarrow> cm_inv (snd (cm_execute f p m)) \<and> cm_inv (snd (cm_finally m))"
    by (simp add: cm_execute_inv cm_finally_inv)
  have b: "fst (cm_execute f p m) = Enqueued \<longrightarrow> int (length (queue m)) < queueLimit m"
    by (auto simp: cm_execute_def split: if_splits)
  have c: "fst (cm_execute f p m) = Started \<longrightarrow> activeCount m < maxConcurrent m"
    by (auto simp: cm_execute_def split: if_splits)
  have d: "fst (cm_finally m) \<noteq> None \<longrightarrow> activeCount (snd (cm_finally m)) = activeCount m - 1 + 1"
    by (auto simp: cm_finally_def cm_run_def Let_def split: list.splits)
  have e: "1 \<le> C \<and> 0 \<le> Q \<longrightarrow> cm_inv (fst (cm_steps evs (ConcurrencyManager C Q, g)))"
  proof
    assume "1 \<le> C \<and> 0 \<le> Q"
    then have "cm_inv (fst (ConcurrencyManager C Q, g))"
      by (simp add: cm_inv_def ConcurrencyManager_def)
    then show "cm_inv (fst (cm_steps evs (ConcurrencyManager C Q, g)))" by (rule cm_steps_inv)
  qed
  show ?thesis using a b c d e by blast
qed

theorem admission_bounds_witness:
  "cm_inv \<lparr> maxConcurrent = 2, queueLimit = 1, activeCount = 2,
            queue = [] :: string request list \<rparr> \<and>
   cm_execute ''C'' 5 \<lparr> maxConcurrent = 2, queueLimit = 1, activeCount = 2, queue = [] \<rparr> =
     (Enqueued, \<lparr> maxConcurrent = 2, queueLimit = 1, activeCount = 2,
                  queue = [\<lparr> req_fn = ''C'', req_priority = 5 \<rparr>] \<rparr>) \<and>
   cm_inv \<lparr> maxConcurrent = 2, queueLimit = 1, activeCount = 2,
            queue = [\<lparr> req_fn = ''C'', req_priority = 5 \<rparr>] \<rparr> \<and>
   cm_finally \<lparr> maxConcurrent = 2, queueLimit = 1, activeCount = 2,
                queue = [\<lparr> req_fn = ''C'', req_priority = 5 \<rparr>] \<rparr> =
     (Some ''C'', \<lparr> maxConcurrent = 2, queueLimit = 1, activeCount = 2, queue = [] \<rparr>) \<and>
   cm_inv (fst (cm_steps [Submit ''A'' 0, Submit ''B'' 0, Submit ''C'' 5, Submit ''D'' 0, Release]
                 (ConcurrencyManager 2 1, [])))"
proof -
  let ?C = "\<lparr> req_fn = ''C'', req_priority = 5 \<rparr>"
  let ?busy = "\<lparr> maxConcurrent = 2, queueLimit = 1, activeCount = 2,
                 queue = [] :: string request list \<rparr>"
  let ?full = "\<lparr> maxConcurrent = 2, queueLimit = 1, activeCount = 2, queue = [?C] \<rparr>"
  let ?evs = "[Submit ''A'' 0, Submit ''B'' 0, Submit ''C'' 5, Submit ''D'' 0, Release]"
  have inv: "cm_inv ?busy" by (simp add: cm_inv_def)
  have enq: "cm_execute ''C'' 5 ?busy = (Enqueued, ?full)"
    by (simp add: cm_execute_def js_sort_def)
  have rel: "cm_finally ?full = (Some ''C'', ?busy)"
    by (simp add: cm_finally_def cm_run_def)
  have "cm_inv ?full"
    using admission_bounds[of ?busy "''C''" 5 2 1 ?evs "[]"] inv enq by simp
  moreover have "cm_inv (fst (cm_steps ?evs (ConcurrencyManager 2 1, [])))"
    using admission_bounds[of ?busy "''C''" 5 2 1 ?evs "[]"] by simp
  ultimately show ?thesis using inv enq rel by simp
qed

lemma submits_start:
  "activeCount m + int (length subs) \<le> maxConcurrent m \<Longrightarrow>
   cm_steps (map (\<lambda>(f, p). Submit f p) subs) (m, g) =
     (m\<lparr> activeCount := activeCount m + int (length subs) \<rparr>, g @ map fst subs)"
proof (induction subs arbitrary: m g)
  case Nil then show ?case by simp
next
  case (Cons s subs)
  obtain f p where s: "s = (f, p)" by (cases s)
  have ex: "cm_execute f p m = (Started, m\<lparr> activeCount := activeCount m + 1 \<rparr>)"
    using Cons.prems by (simp add: cm_execute_def cm_run_def)
  have "cm_steps (map (\<lambda>(f, p). Submit f p) subs) (m\<lparr> activeCount := activeCount m + 1 \<rparr>, g @ [f]) =
        ((m\<lparr> activeCount := activeCount m + 1 \<rparr>)\<lparr> activeCount := activeCount (m\<lparr> activeCount := activeCount m + 1 \<rparr>) + int (length subs) \<rparr>, (g @ [f]) @ map fst subs)"
    using Cons.prems by (intro Cons.IH) simp
  then show ?case using s ex by (simp add: add.assoc add.commute)
qed

lemma submits_wait:
  assumes "maxConcurrent m \<le> activeCount m" "int (length (queue m) + length subs) \<le> queueLimit m"
    and "cm_steps (map (\<lambda>(f, p). Submit f p) subs) (m, g) = (m', g')"
  shows "g' = g \<and> activeCount m' = activeCount m \<and> maxConcurrent m' = maxConcurrent m \<and>
         queueLimit m' = queueLimit m \<and> length (queue m') = length (queue m) + length subs"
  using assms
proof (induction subs arbitrary: m)
  case Nil then show ?case by simp
next
  case (Cons s subs)
  obtain f p where s: "s = (f, p)" by (cases s)
  let ?busy = "m\<lparr> queue := js_sort (queue m @ [\<lparr> req_fn = f, req_priority = p \<rparr>]) \<rparr>"
  have ex: "cm_execute f p m = (Enqueued, ?busy)"
    using Cons.prems(1,2) by (simp add: cm_execute_def)
  have len: "length (queue ?busy) = Suc (length (queue m))" by (simp add: js_sort_def)
  have run: "cm_steps (map (\<lambda>(f, p). Submit f p) subs) (?busy, g) = (m', g')"
    using Cons.prems(3) s ex by simp
  have "g' = g \<and> activeCount m' = activeCount ?busy \<and> maxConcurrent m' = maxConcurrent ?busy \<and>
        queueLimit m' = queueLimit ?busy \<and> length (queue m') = length (queue ?busy) + length subs"
    using Cons.prems(1,2) len by (intro Cons.IH[OF _ _ run]) simp_all
  then show ?case using len by simp
qed

text \<open>
  Claim C7. In a state within the bounds, a submission is refused with \<open>QueueFull\<close>
  exactly when the count of running operations is at least \<open>maxConcurrent\<close> and the
  queue holds \<open>queueLimit\<close> entries; no other error is raised, and a refusal changes
  nothing. Below \<open>maxConcurrent\<close> the operation starts at once; at capacity with
  room in the queue the request is enqueued without error. Submitting \<open>C + Q\<close>
  operations to a fresh controller with \<open>maxConcurrent = C\<close> and \<open>queueLimit = Q\<close>,
  none of them finishing, leaves \<open>C\<close> running (the first \<open>C\<close>) and \<open>Q\<close> waiting, and
  the next submission is refused with \<open>QueueFull\<close>.
\<close>

theorem queue_full_boundary:
  "(cm_inv m \<longrightarrow>
      (fst (cm_execute f p m) = Rejected QueueFull \<longleftrightarrow>
         maxConcurrent m \<le> activeCount m \<and> int (length (queue m)) = queueLimit m)) \<and>
   (fst (cm_execute f p m) = Rejected e \<longrightarrow> e = QueueFull \<and> snd (cm_execute f p m) = m) \<and>
   (activeCount m < maxConcurrent m \<longrightarrow>
      cm_execute f p m = (Started, m\<lparr> activeCount := activeCount m + 1 \<rparr>)) \<and>
   (maxConcurrent m \<le> activeCount m \<and> int (length (queue m)) < queueLimit m \<longrightarrow>
      fst (cm_execute f p m) = Enqueued \<and>
      activeCount (snd (cm_execute f p m)) = activeCount m \<and>
      length (queue (snd (cm_execute f p m))) = length (queue m) + 1 \<and>
      set (queue (snd (cm_execute f p m))) =
        insert \<lparr> req_fn = f, req_priority = p \<rparr> (set (queue m))) \<and>
   (0 \<le> C \<and> 0 \<le> Q \<and> length subs = nat C + nat Q \<and>
    cm_steps (map (\<lambda>(f, p). Submit f p) subs) (ConcurrencyManager C Q, []) = (m' :: 'f manager, g') \<longrightarrow>
      activeCount m' = C \<and> int (length (queue m')) = Q \<and> g' = map fst (take (nat C) subs) \<and>
      cm_execute f p m' = (Rejected QueueFull, m'))"
proof -
  have a: "cm_inv m \<longrightarrow>
      (fst (cm_execute f p m) = Rejected QueueFull \<longleftrightarrow>
         maxConcurrent m \<le> activeCount m \<and> int (length (queue m)) = queueLimit m)"
    by (auto simp: cm_inv_def cm_execute_def)
  have b: "fst (cm_execute f p m) = Rejected e \<longrightarrow> e = QueueFull \<and> snd (cm_execute f p m) = m"
    by (auto simp: cm_execute_def split: if_splits)
  have c: "activeCount m < maxConcurrent m \<longrightarrow>
      cm_execute f p m = (Started, m\<lparr> activeCount := activeCount m + 1 \<rparr>)"
    by (simp add: cm_execute_def cm_run_def)
  have d: "maxConcurrent m \<le> activeCount m \<and> int (length (queue m)) < queueLimit m \<longrightarrow>
      fst (cm_execute f p m) = Enqueued \<and>
      activeCount (snd (cm_execute f p m)) = activeCount m \<and>
      length (queue (snd (cm_execute f p m))) = length (queue m) + 1 \<and>
      set (queue (snd (cm_execute f p m))) =
        insert \<lparr> req_fn = f, req_priority = p \<rparr> (set (queue m))"
    by (simp add: cm_execute_def js_sort_def)
  have e: "0 \<le> C \<and> 0 \<le> Q \<and> length subs = nat C + nat Q \<and>
    cm_steps (map (\<lambda>(f, p). Submit f p) subs) (ConcurrencyManager C Q, []) = (m' :: 'f manager, g') \<longrightarrow>
      activeCount m' = C \<and> int (length (queue m')) = Q \<and> g' = map fst (take (nat C) subs) \<and>
      cm_execute f p m' = (Rejected QueueFull, m')"
  proof
    assume h: "0 \<le> C \<and> 0 \<le> Q \<and> length subs = nat C + nat Q \<and>
      cm_steps (map (\<lambda>(f, p). Submit f p) subs) (ConcurrencyManager C Q, []) = (m', g')"
    let ?init = "ConcurrencyManager C Q :: 'f manager"
    let ?run = "take (nat C) subs" and ?wait = "drop (nat C) subs"
    let ?busy = "?init\<lparr> activeCount := activeCount ?init + int (length ?run) \<rparr>"
    have lr: "length ?run = nat C" and lw: "length ?wait = nat Q" using h by simp_all
    have p1: "cm_steps (map (\<lambda>(f, p). Submit f p) ?run) (?init, []) = (?busy, [] @ map fst ?run)"
      using h lr by (intro submits_start) (simp add: ConcurrencyManager_def)
    have "cm_steps (map (\<lambda>(f, p). Submit f p) (?run @ ?wait)) (?init, []) = (m', g')"
      using h by simp
    then have p2: "cm_steps (map (\<lambda>(f, p). Submit f p) ?wait) (?busy, map fst ?run) = (m', g')"
      using p1 by (simp only: map_append cm_steps_append append_Nil)
    have "g' = map fst ?run \<and> activeCount m' = activeCount ?busy \<and> maxConcurrent m' = maxConcurrent ?busy \<and>
         queueLimit m' = queueLimit ?busy \<and> length (queue m') = length (queue ?busy) + length ?wait"
      using h lr lw by (intro submits_wait[OF _ _ p2]) (simp_all add: ConcurrencyManager_def)
    then show "activeCount m' = C \<and> int (length (queue m')) = Q \<and> g' = map fst (take (nat C) subs) \<and>
      cm_execute f p m' = (Rejected QueueFull, m')"
      using h lr lw by (simp add: ConcurrencyManager_def cm_execute_def)
  qed
  show ?thesis using a b c d e by blast
qed

theorem queue_full_boundary_witness:
  "cm_execute ''A'' 0 (ConcurrencyManager 2 1) =
     (Started, \<lparr> maxConcurrent = 2, queueLimit = 1, activeCount = 1, queue = [] \<rparr>) \<and>
   fst (cm_execute ''C'' 5 \<lparr> maxConcurrent = 2, queueLimit = 1, activeCount = 2, queue = [] \<rparr>) =
     Enqueued \<and>
   cm_steps [Submit ''A'' 0, Submit ''B'' 0, Submit ''C'' 5] (ConcurrencyManager 2 1, []) =
     (\<lparr> maxConcurrent = 2, queueLimit = 1, activeCount = 2,
        queue = [\<lparr> req_fn = ''C'', req_priority = 5 \<rparr>] \<rparr>, [''A'', ''B'']) \<and>
   cm_execute ''D'' 0 \<lparr> maxConcurrent = 2, queueLimit = 1, activeCount = 2,
                         queue = [\<lparr> req_fn = ''C'', req_priority = 5 \<rparr>] \<rparr> =
     (Rejected QueueFull, \<lparr> maxConcurrent = 2, queueLimit = 1, activeCount = 2,
                            queue = [\<lparr> req_fn = ''C'', req_priority = 5 \<rparr>] \<rparr>)"
proof -
  let ?C = "\<lparr> req_fn = ''C'', req_priority = 5 \<rparr>"
  let ?idle = "ConcurrencyManager 2 1 :: string manager"
  let ?busy = "\<lparr> maxConcurrent = 2, queueLimit = 1, activeCount = 2,
                 queue = [] :: string request list \<rparr>"
  let ?full = "\<lparr> maxConcurrent = 2, queueLimit = 1, activeCount = 2, queue = [?C] \<rparr>"
  let ?subs = "[(''A'', 0), (''B'', 0), (''C'', 5)] :: (string \<times> int) list"
  have run: "cm_steps (map (\<lambda>(f, p). Submit f p) ?subs) (?idle, []) = (?full, [''A'', ''B''])"
    by (simp add: ConcurrencyManager_def cm_execute_def cm_run_def js_sort_def)
  have len: "length ?subs = nat 2 + nat 1" by simp
  have started: "cm_execute ''A'' 0 ?idle =
                   (Started, ?idle\<lparr> activeCount := activeCount ?idle + 1 \<rparr>)"
    using queue_full_boundary[of ?idle "''A''" 0 QueueFull 2 1 ?subs ?full "[''A'', ''B'']"]
    by (simp add: ConcurrencyManager_def)
  have waits: "fst (cm_execute ''C'' 5 ?busy) = Enqueued"
    using queue_full_boundary[of ?busy "''C''" 5 QueueFull 2 1 ?subs ?full "[''A'', ''B'']"]
    by simp
  have refused: "cm_execute ''D'' 0 ?full = (Rejected QueueFull, ?full)"
    using queue_full_boundary[of ?full "''D''" 0 QueueFull 2 1 ?subs ?full "[''A'', ''B'']"]
          run len
    by simp
  show ?thesis using started waits refused run by (simp add: ConcurrencyManager_def)
qed


section \<open>Properties of the processing system\<close>

subsection \<open>What a call of processTask leaves alone\<close>

lemma executeTask_begin_frame:
  assumes "executeTask_begin now sys = (pr, sys')"
  shows "pendingTasks sys' = pendingTasks sys \<and> disk sys' = disk sys \<and>
         emitted sys' = emitted sys \<and> console sys' = console sys \<and>
         writable sys' = writable sys \<and> metrics sys' = metrics sys \<and>
         concurrencyManager sys' = concurrencyManager sys \<and>
         failureThreshold (circuitBreaker sys') = failureThreshold (circuitBreaker sys) \<and>
         recoveryTime (circuitBreaker sys') = recoveryTime (circuitBreaker sys)"
  using assms
  by (auto simp: executeTask_begin_def cb_gate_def split: if_splits)

lemma processTask_begin_recovered:
  assumes "processTask_begin tid td prio True now sys = (pr, sys')"
  shows "pendingTasks sys' = pendingTasks sys \<and> disk sys' = disk sys \<and>
         emitted sys' = emitted sys @ [TaskQueued tid td prio] \<and>
         console sys' = console sys \<and> writable sys' = writable sys \<and>
         metrics sys' = metrics sys \<and>
         failureThreshold (circuitBreaker sys') = failureThreshold (circuitBreaker sys) \<and>
         recoveryTime (circuitBreaker sys') = recoveryTime (circuitBreaker sys)"
proof -
  let ?sys2 = "emit (TaskQueued tid td prio) sys"
  obtain a m where ex: "cm_execute (tid, td) prio (concurrencyManager ?sys2) = (a, m)"
    by (cases "cm_execute (tid, td) prio (concurrencyManager ?sys2)")
  show ?thesis
  proof (cases a)
    case (Rejected e)
    then show ?thesis using assms ex by (auto simp: processTask_begin_def emit_def)
  next
    case Enqueued
    then show ?thesis using assms ex by (auto simp: processTask_begin_def emit_def)
  next
    case Started
    then have "executeTask_begin now (?sys2\<lparr> concurrencyManager := m \<rparr>) = (pr, sys')"
      using assms ex by (simp add: processTask_begin_def)
    from executeTask_begin_frame[OF this] show ?thesis by (simp add: emit_def)
  qed
qed

lemma recover_loop_attempts:
  assumes "recover_loop env i ts sys = (prs, sys')"
  shows "length prs = length ts \<and>
         emitted sys' = emitted sys @
           map (\<lambda>(j, t). TaskQueued (fst (env j)) (taskData t) (priority t)) (enumerate i ts) \<and>
         pendingTasks sys' = pendingTasks sys \<and> disk sys' = disk sys \<and>
         console sys' = console sys \<and>
         failureThreshold (circuitBreaker sys') = failureThreshold (circuitBreaker sys) \<and>
         recoveryTime (circuitBreaker sys') = recoveryTime (circuitBreaker sys)"
  using assms
proof (induction ts arbitrary: i sys prs sys')
  case Nil
  then show ?case by simp
next
  case (Cons t ts)
  obtain pr sys1 where first:
    "processTask_begin (fst (env i)) (taskData t) (priority t) True (snd (env i)) sys = (pr, sys1)"
    by (cases "processTask_begin (fst (env i)) (taskData t) (priority t) True (snd (env i)) sys")
  obtain prs1 sys2 where rest: "recover_loop env (Suc i) ts sys1 = (prs1, sys2)"
    by (cases "recover_loop env (Suc i) ts sys1")
  have res: "prs = pr # prs1" "sys' = sys2" using Cons.prems first rest by simp_all
  note f = processTask_begin_recovered[OF first]
  note r = Cons.IH[OF rest]
  show ?case using f r res by simp
qed

subsection \<open>Concrete systems\<close>

lemma fresh_tight:
  "(AsyncProcessingSystem tight_options 0 new_id Absent True :: (string, string) system) =
     \<lparr> concurrencyManager = \<lparr> maxConcurrent = 1, queueLimit = 1, activeCount = 0, queue = [] \<rparr>,
       circuitBreaker = \<lparr> failureThreshold = 5, recoveryTime = 5000, failures = 0, state = CLOSED, nextAttempt = 0 \<rparr>,
       isProcessing = False,
       metrics = \<lparr> totalProcessed = 0, totalErrors = 0, avgLatency = 0, startTime = 0 \<rparr>,
       pendingTasks = [], disk = Absent, writable = True, emitted = [], console = [] \<rparr>"
  by (simp add: AsyncProcessingSystem_def loadTasks_def recoverTasks_def tight_options_def js_or_def
                ConcurrencyManager_def CircuitBreaker_def)

lemma full_system_eq:
  "full_system =
     \<lparr> concurrencyManager =
         \<lparr> maxConcurrent = 1, queueLimit = 1, activeCount = 1,
           queue = [\<lparr> req_fn = (''task_b'', ''payload''), req_priority = 0 \<rparr>] \<rparr>,
       circuitBreaker = \<lparr> failureThreshold = 5, recoveryTime = 5000, failures = 0, state = CLOSED, nextAttempt = 0 \<rparr>,
       isProcessing = False,
       metrics = \<lparr> totalProcessed = 0, totalErrors = 0, avgLatency = 0, startTime = 0 \<rparr>,
       pendingTasks = [\<lparr> taskId = ''task_a'', taskData = ''payload'', priority = 0 \<rparr>,
                       \<lparr> taskId = ''task_b'', taskData = ''payload'', priority = 0 \<rparr>],
       disk = Tasks [\<lparr> taskId = ''task_a'', taskData = ''payload'', priority = 0 \<rparr>,
                     \<lparr> taskId = ''task_b'', taskData = ''payload'', priority = 0 \<rparr>],
       writable = True,
       emitted = [TaskQueued ''task_a'' ''payload'' 0, TaskQueued ''task_b'' ''payload'' 0],
       console = [] \<rparr>"
  unfolding full_system_def fresh_tight
  by (simp add: processTask_begin_def persist_def saveTasks_def emit_def cm_execute_def cm_run_def
                executeTask_begin_def cb_gate_def js_sort_def Let_def)

lemma fresh_default:
  "(AsyncProcessingSystem no_options 0 new_id Absent True :: (string, string) system) =
     \<lparr> concurrencyManager = \<lparr> maxConcurrent = 10, queueLimit = 1000, activeCount = 0, queue = [] \<rparr>,
       circuitBreaker = \<lparr> failureThreshold = 5, recoveryTime = 5000, failures = 0, state = CLOSED, nextAttempt = 0 \<rparr>,
       isProcessing = False,
       metrics = \<lparr> totalProcessed = 0, totalErrors = 0, avgLatency = 0, startTime = 0 \<rparr>,
       pendingTasks = [], disk = Absent, writable = True, emitted = [], console = [] \<rparr>"
  by (simp add: AsyncProcessingSystem_def loadTasks_def recoverTasks_def no_options_def js_or_def
                ConcurrencyManager_def CircuitBreaker_def)

lemma fresh_breaker_options:
  "(AsyncProcessingSystem breaker_options 0 new_id Absent True :: (string, string) system) =
     \<lparr> concurrencyManager = \<lparr> maxConcurrent = 10, queueLimit = 1000, activeCount = 0, queue = [] \<rparr>,
       circuitBreaker = \<lparr> failureThreshold = 5, recoveryTime = 5000, failures = 0, state = CLOSED, nextAttempt = 0 \<rparr>,
       isProcessing = False,
       metrics = \<lparr> totalProcessed = 0, totalErrors = 0, avgLatency = 0, startTime = 0 \<rparr>,
       pendingTasks = [], disk = Absent, writable = True, emitted = [], console = [] \<rparr>"
  by (simp add: AsyncProcessingSystem_def loadTasks_def recoverTasks_def breaker_options_def js_or_def
                ConcurrencyManager_def CircuitBreaker_def)

lemma restarted:
  "(AsyncProcessingSystem no_options 1000 new_id (Tasks [old_task]) True :: (string, string) system) =
     \<lparr> concurrencyManager = \<lparr> maxConcurrent = 10, queueLimit = 1000, activeCount = 1, queue = [] \<rparr>,
       circuitBreaker = \<lparr> failureThreshold = 5, recoveryTime = 5000, failures = 0, state = CLOSED, nextAttempt = 1000 \<rparr>,
       isProcessing = False,
       metrics = \<lparr> totalProcessed = 0, totalErrors = 0, avgLatency = 0, startTime = 1000 \<rparr>,
       pendingTasks = [old_task], disk = Tasks [old_task], writable = True,
       emitted = [TaskQueued ''task_new'' ''payload'' 0], console = [Recovering 1] \<rparr>"
  by (simp add: AsyncProcessingSystem_def loadTasks_def recoverTasks_def no_options_def js_or_def
                ConcurrencyManager_def CircuitBreaker_def new_id_def old_task_def
                processTask_begin_def emit_def cm_execute_def cm_run_def executeTask_begin_def
                cb_gate_def Let_def)

subsection \<open>A refused submission\<close>

text \<open>
  Claim C1, as the code has it. When the admission controller is at capacity and its
  queue is full, a submission that is not a recovery replay returns the \<open>QueueFull\<close>
  error to the submitter, and the operation is never started: the controller, the
  breaker and the metrics are as before. The pending record, however, was appended to
  the store and written to the file before admission, and the \<^verbatim>\<open>catch\<close> does not remove
  it: the store holds the record of the refused task. The events \<^verbatim>\<open>taskQueued\<close> and
  \<^verbatim>\<open>taskFailed\<close> are emitted. A recovery replay that is refused leaves the store as
  it was.
\<close>

theorem refused_submission_is_stored:
  assumes "maxConcurrent (concurrencyManager sys) \<le> activeCount (concurrencyManager sys)"
    and "queueLimit (concurrencyManager sys) \<le> int (length (queue (concurrencyManager sys)))"
  shows "processTask_refused tid td prio False now sys =
           (Some (Inl QueueFull),
            sys\<lparr> pendingTasks := pendingTasks sys @ [\<lparr> taskId = tid, taskData = td, priority = prio \<rparr>],
                 disk := (if writable sys
                          then Tasks (pendingTasks sys @ [\<lparr> taskId = tid, taskData = td, priority = prio \<rparr>])
                          else disk sys),
                 console := console sys @ (if writable sys then [] else [ErrorSavingTasks]),
                 emitted := emitted sys @ [TaskQueued tid td prio,
                                           TaskFailed tid ''Task queue limit reached''] \<rparr>) \<and>
         processTask_refused tid td prio True now sys =
           (Some (Inl QueueFull),
            sys\<lparr> emitted := emitted sys @ [TaskQueued tid td prio,
                                           TaskFailed tid ''Task queue limit reached''] \<rparr>)"
  using assms
  by (simp add: processTask_refused_def processTask_begin_def processTask_reject_def
                persist_def saveTasks_def emit_def cm_execute_def QueueFull_def Let_def)

theorem refused_submission_is_stored_witness:
  "processTask_refused ''task_c'' ''payload'' 0 False 30 full_system =
     (Some (Inl QueueFull),
      full_system\<lparr>
        pendingTasks := [\<lparr> taskId = ''task_a'', taskData = ''payload'', priority = 0 \<rparr>,
                         \<lparr> taskId = ''task_b'', taskData = ''payload'', priority = 0 \<rparr>,
                         \<lparr> taskId = ''task_c'', taskData = ''payload'', priority = 0 \<rparr>],
        disk := Tasks [\<lparr> taskId = ''task_a'', taskData = ''payload'', priority = 0 \<rparr>,
                       \<lparr> taskId = ''task_b'', taskData = ''payload'', priority = 0 \<rparr>,
                       \<lparr> taskId = ''task_c'', taskData = ''payload'', priority = 0 \<rparr>],
        emitted := [TaskQueued ''task_a'' ''payload'' 0, TaskQueued ''task_b'' ''payload'' 0,
                    TaskQueued ''task_c'' ''payload'' 0,
                    TaskFailed ''task_c'' ''Task queue limit reached''] \<rparr>)"
proof -
  have busy: "maxConcurrent (concurrencyManager full_system) \<le> activeCount (concurrencyManager full_system)"
    by (simp add: full_system_eq)
  have full: "queueLimit (concurrencyManager full_system) \<le> int (length (queue (concurrencyManager full_system)))"
    by (simp add: full_system_eq)
  show ?thesis
    using refused_submission_is_stored[OF busy full, of "''task_c''" "''payload''" 0 30]
    by (simp add: full_system_eq)
qed

text \<open>
  The statement of claim C1 fails on \<open>full_system\<close>: the third submission is refused
  with \<open>QueueFull\<close>, and its record is in the store and in the file afterwards.
\<close>

theorem queue_full_record_is_stored:
  "fst (processTask_refused ''task_c'' ''payload'' 0 False 30 full_system) = Some (Inl QueueFull) \<and>
   \<lparr> taskId = ''task_c'', taskData = ''payload'', priority = 0 \<rparr>
     \<in> set (pendingTasks (snd (processTask_refused ''task_c'' ''payload'' 0 False 30 full_system))) \<and>
   disk (snd (processTask_refused ''task_c'' ''payload'' 0 False 30 full_system)) =
     Tasks [\<lparr> taskId = ''task_a'', taskData = ''payload'', priority = 0 \<rparr>,
            \<lparr> taskId = ''task_b'', taskData = ''payload'', priority = 0 \<rparr>,
            \<lparr> taskId = ''task_c'', taskData = ''payload'', priority = 0 \<rparr>]"
  unfolding full_system_eq
  by (simp add: processTask_refused_def processTask_begin_def processTask_reject_def
                persist_def saveTasks_def emit_def cm_execute_def QueueFull_def Let_def)

subsection \<open>A successful task\<close>

lemma processTask_resolve_effect:
  "processTask_resolve tid r sys =
     (Inr r,
      sys\<lparr> pendingTasks := filter (\<lambda>t. taskId t \<noteq> tid) (pendingTasks sys),
           disk := (if writable sys then Tasks (filter (\<lambda>t. taskId t \<noteq> tid) (pendingTasks sys))
                    else disk sys),
           console := console sys @ (if writable sys then [] else [ErrorSavingTasks]),
           emitted := emitted sys @ [TaskCompleted tid r] \<rparr>)"
  by (simp add: processTask_resolve_def persist_def saveTasks_def emit_def Let_def)

text \<open>
  The record a submission stored under the identifier it generated is removed when the
  task succeeds; a record stored under any other identifier stays.
\<close>

lemma processTask_resolve_removes:
  "\<forall>t \<in> set (pendingTasks (snd (processTask_resolve tid r sys))). taskId t \<noteq> tid"
  by (simp add: processTask_resolve_effect)

lemma processTask_resolve_keeps:
  "t \<in> set (pendingTasks sys) \<Longrightarrow> taskId t \<noteq> tid \<Longrightarrow>
   t \<in> set (pendingTasks (snd (processTask_resolve tid r sys)))"
  by (simp add: processTask_resolve_effect)

text \<open>
  Claim C2, on a recovery replay. The file holds one record, \<^verbatim>\<open>task_old\<close>, when the
  system is constructed. The recovery pass replays it; the call of \<^verbatim>\<open>processTask\<close>
  generates the identifier \<^verbatim>\<open>task_new\<close>. The simulated call succeeds, the slot is
  released and \<^verbatim>\<open>processTask\<close> resumes: it returns the result and emits
  \<^verbatim>\<open>taskCompleted\<close>, but it filters the store by \<^verbatim>\<open>task_new\<close>, so the record
  \<^verbatim>\<open>task_old\<close> is still in the store and in the file.
\<close>

theorem replayed_record_survives_success:
  "fst (processTask_resolve ''task_new'' ''ok''
     (snd (slot_released 2000
       (executeTask_settled 2000 900 (Inr ''ok'')
         (AsyncProcessingSystem no_options 1000 new_id (Tasks [old_task]) True))))) = Inr ''ok'' \<and>
   pendingTasks (snd (processTask_resolve ''task_new'' ''ok''
     (snd (slot_released 2000
       (executeTask_settled 2000 900 (Inr ''ok'')
         (AsyncProcessingSystem no_options 1000 new_id (Tasks [old_task]) True)))))) = [old_task] \<and>
   disk (snd (processTask_resolve ''task_new'' ''ok''
     (snd (slot_released 2000
       (executeTask_settled 2000 900 (Inr ''ok'')
         (AsyncProcessingSystem no_options 1000 new_id (Tasks [old_task]) True)))))) =
     Tasks [old_task] \<and>
   emitted (snd (processTask_resolve ''task_new'' ''ok''
     (snd (slot_released 2000
       (executeTask_settled 2000 900 (Inr ''ok'')
         (AsyncProcessingSystem no_options 1000 new_id (Tasks [old_task]) True)))))) =
     [TaskQueued ''task_new'' ''payload'' 0, TaskCompleted ''task_new'' ''ok''] \<and>
   activeCount (concurrencyManager (snd (processTask_resolve ''task_new'' ''ok''
     (snd (slot_released 2000
       (executeTask_settled 2000 900 (Inr ''ok'')
         (AsyncProcessingSystem no_options 1000 new_id (Tasks [old_task]) True))))))) = 0"
  unfolding restarted
  by (simp add: processTask_resolve_def slot_released_def executeTask_settled_def cm_finally_def
                cb_settle_def cb_reset_def updateMetrics_def persist_def saveTasks_def emit_def
                old_task_def Let_def)

subsection \<open>The recovery pass\<close>



subsection \<open>The breaker of the system\<close>

text \<open>
  Claim C8, as the code has it. The constructor of the system builds its circuit
  breaker with no arguments: whatever the options say, the breaker has
  \<open>failureThreshold = 5\<close> and \<open>recoveryTime = 5000\<close>, the defaults. The breaker class
  by itself takes the threshold and the recovery time it is given.
\<close>

theorem breaker_ignores_options:
  "failureThreshold (circuitBreaker (AsyncProcessingSystem opts now env f w :: ('d, 'r) system)) = 5 \<and>
   recoveryTime (circuitBreaker (AsyncProcessingSystem opts now env f w :: ('d, 'r) system)) = 5000 \<and>
   failureThreshold (CircuitBreaker (Some T) (Some R) now) = T \<and>
   recoveryTime (CircuitBreaker (Some T) (Some R) now) = R \<and>
   failureThreshold (CircuitBreaker None None now) = 5 \<and>
   recoveryTime (CircuitBreaker None None now) = 5000"
proof -
  obtain tasks lines where l: "loadTasks f = (tasks, lines)" by (cases "loadTasks f")
  let ?sys = "\<lparr> concurrencyManager =
                ConcurrencyManager (js_or (opt_maxConcurrent opts) 10)
                                   (js_or (opt_queueLimit opts) 1000),
              circuitBreaker = CircuitBreaker None None now,
              isProcessing = False,
              metrics = \<lparr> totalProcessed = 0, totalErrors = 0, avgLatency = 0, startTime = now \<rparr>,
              pendingTasks = tasks, disk = f, writable = w,
              emitted = [] :: ('d, 'r) event list, console = lines \<rparr>"
  let ?logged = "if length (pendingTasks ?sys) > 0
               then ?sys\<lparr> console := console ?sys @ [Recovering (length (pendingTasks ?sys))] \<rparr>
               else ?sys"
  obtain prs sys' where r: "recover_loop env 0 (pendingTasks ?logged) ?logged = (prs, sys')"
    by (cases "recover_loop env 0 (pendingTasks ?logged) ?logged")
  have built: "(AsyncProcessingSystem opts now env f w :: ('d, 'r) system) = sys'"
    using l r by (simp add: AsyncProcessingSystem_def recoverTasks_def Let_def)
  have kept: "failureThreshold (circuitBreaker sys') = failureThreshold (circuitBreaker ?logged)"
    "recoveryTime (circuitBreaker sys') = recoveryTime (circuitBreaker ?logged)"
    using recover_loop_attempts[OF r] by simp_all
  have start: "failureThreshold (circuitBreaker ?logged) = 5"
    "recoveryTime (circuitBreaker ?logged) = 5000"
    by (simp_all add: CircuitBreaker_def)
  have "failureThreshold (circuitBreaker sys') = 5" "recoveryTime (circuitBreaker sys') = 5000"
    using kept start by simp_all
  then show ?thesis unfolding built by (simp add: CircuitBreaker_def)
qed

theorem breaker_ignores_options_witness:
  "failureThreshold (circuitBreaker
     (AsyncProcessingSystem breaker_options 0 new_id Absent True :: (string, string) system)) = 5 \<and>
   recoveryTime (circuitBreaker
     (AsyncProcessingSystem breaker_options 0 new_id Absent True :: (string, string) system)) = 5000 \<and>
   failureThreshold (CircuitBreaker (Some 2) (Some 100) 0) = 2 \<and>
   recoveryTime (CircuitBreaker (Some 2) (Some 100) 0) = 100"
  using breaker_ignores_options[where ?'d = string and ?'r = string,
          of breaker_options 0 new_id Absent True 2 100]
  by simp

text \<open>
  The statement of claim C8 fails for the options \<^verbatim>\<open>{ failureThreshold: 2, recoveryTime: 100 }\<close>:
  the breaker of the system has threshold 5 and recovery time 5000, and is still
  closed after two consecutive failures.
\<close>

theorem configured_breaker_not_honoured:
  "opt_failureThreshold breaker_options = Some 2 \<and> opt_recoveryTime breaker_options = Some 100 \<and>
   failureThreshold (circuitBreaker
     (AsyncProcessingSystem breaker_options 0 new_id Absent True :: (string, string) system)) = 5 \<and>
   recoveryTime (circuitBreaker
     (AsyncProcessingSystem breaker_options 0 new_id Absent True :: (string, string) system)) = 5000 \<and>
   state (fst (cb_calls [(10, 20, failing_op), (30, 40, failing_op)]
     (circuitBreaker
        (AsyncProcessingSystem breaker_options 0 new_id Absent True :: (string, string) system), 0))) =
     CLOSED"
  unfolding fresh_breaker_options
  by (simp add: breaker_options_def cb_execute_def cb_gate_def cb_fail_def failing_op_def)

subsection \<open>The error rate\<close>

text \<open>
  Claim C3, as the code has it. The error rate is the quotient
  \<open>totalErrors / (totalProcessed + totalErrors)\<close> computed by an unguarded division:
  when no task has completed or failed, it is \<^verbatim>\<open>0 / 0\<close>, that is \<^verbatim>\<open>NaN\<close>.
\<close>

theorem error_rate_unguarded:
  "errorRate (getSystemMetrics now sys) =
     (if totalProcessed (metrics sys) + totalErrors (metrics sys) = 0 then NaN
      else Finite (of_nat (totalErrors (metrics sys)) /
                   of_nat (totalProcessed (metrics sys) + totalErrors (metrics sys))))"
  by (simp add: getSystemMetrics_def js_div_def Let_def)

theorem error_rate_unguarded_witness:
  "errorRate (getSystemMetrics 5000 tripped_system) = Finite 1"
  using error_rate_unguarded[of 5000 tripped_system]
  by (simp add: tripped_system_def)

text \<open>
  The statement of claim C3 fails on a system that has just been constructed: its
  error rate is \<^verbatim>\<open>NaN\<close>, not 0.
\<close>

theorem error_rate_of_fresh_system:
  "errorRate (getSystemMetrics 5000
     (AsyncProcessingSystem no_options 0 new_id Absent True :: (string, string) system)) = NaN \<and>
   errorRate (getSystemMetrics 5000
     (AsyncProcessingSystem no_options 0 new_id Absent True :: (string, string) system)) \<noteq> Finite 0"
  unfolding fresh_default
  by (simp add: getSystemMetrics_def js_div_def)


end
